theory Spec2Isabelle
  imports Main "HOL-Library.Word"
begin

section \<open>Typed arrays and their memory\<close>

text \<open>
  The module \<^verbatim>\<open>src/lib/index.ts\<close> moves bytes between typed arrays of Node, declared
  \<^verbatim>\<open>Buffer | Uint8Array\<close>. Offsets and lengths are the non-negative integers the API
  is called with, hence \<open>nat\<close>.

  A typed array is a window on an \<^verbatim>\<open>ArrayBuffer\<close>: two typed arrays on the same
  \<^verbatim>\<open>ArrayBuffer\<close> share their bytes, and a write through one is seen through the
  other. The memory is the list of the \<^verbatim>\<open>ArrayBuffer\<close>s allocated so far, each one
  its bytes; the address of an \<^verbatim>\<open>ArrayBuffer\<close> is its index in the list. A typed
  array is its kind, the address of its \<^verbatim>\<open>ArrayBuffer\<close>, and the properties
  \<^verbatim>\<open>byteOffset\<close> and \<^verbatim>\<open>length\<close> (\<open>byteLength\<close>, the elements being
  bytes). The kind decides which methods the object has: a \<^verbatim>\<open>Buffer\<close> has
  \<^verbatim>\<open>copy\<close>, a plain \<^verbatim>\<open>Uint8Array\<close> has not.
\<close>

type_synonym byte = "8 word"
type_synonym bytes = "byte list"
type_synonym memory = "bytes list"

datatype kind = Buffer | Uint8Array

record u8array =
  kind :: kind
  base :: nat
  byteOffset :: nat
  byteLength :: nat

text \<open>The bytes of the \<^verbatim>\<open>ArrayBuffer\<close> at an address (none where nothing is allocated).\<close>

definition load :: "memory \<Rightarrow> nat \<Rightarrow> bytes" where
  "load heap a = (if a < length heap then heap ! a else [])"

text \<open>The bytes seen through a typed array.\<close>

definition bytes_of :: "memory \<Rightarrow> u8array \<Rightarrow> bytes" where
  "bytes_of heap v = take (byteLength v) (drop (byteOffset v) (load heap (base v)))"

text \<open>The bytes \<open>target\<close> with \<open>data\<close> written from \<open>pos\<close> on, as far as it fits.\<close>

definition overwrite :: "bytes \<Rightarrow> nat \<Rightarrow> bytes \<Rightarrow> bytes" where
  "overwrite target pos data =
     take (length target) (take pos target @ data @ drop (pos + length data) target)"

text \<open>
  \<^verbatim>\<open>source.copy(target, targetStart, sourceStart, sourceEnd)\<close> of \<^verbatim>\<open>Buffer\<close>:
  copies the bytes \<open>[sourceStart, sourceEnd)\<close> of the source to the target from
  \<open>targetStart\<close> on, as many as fit in the target and exist in the source. The bytes
  are written into the memory the target is a window on. \<open>source\<close> is the bytes seen
  through the source when the call is made: the copy is that of \<^verbatim>\<open>memmove\<close>, right
  also when source and target overlap.
\<close>

definition copy :: "bytes \<Rightarrow> memory \<Rightarrow> u8array \<Rightarrow> nat \<Rightarrow> nat \<Rightarrow> nat \<Rightarrow> memory" where
  "copy source heap target targetStart sourceStart sourceEnd =
     (if byteLength target \<le> targetStart \<or> sourceEnd \<le> sourceStart then heap
      else
        let nb = min (min (sourceEnd - sourceStart) (byteLength target - targetStart))
                     (length source - sourceStart);
            data = take nb (drop sourceStart source)
        in heap[base target :=
             overwrite (load heap (base target)) (byteOffset target + targetStart) data])"

text \<open>
  \<^verbatim>\<open>buffer.slice(start, stop)\<close>, bounds clipped to the buffer. Of a \<^verbatim>\<open>Buffer\<close> it
  is a \<^verbatim>\<open>Buffer\<close> on the same memory (\<^verbatim>\<open>Buffer.prototype.slice\<close> is
  \<^verbatim>\<open>subarray\<close>): nothing is copied. Of a plain \<^verbatim>\<open>Uint8Array\<close> it is a plain
  \<^verbatim>\<open>Uint8Array\<close> on a new \<^verbatim>\<open>ArrayBuffer\<close> that holds a copy of the bytes.
\<close>

definition slice :: "memory \<Rightarrow> u8array \<Rightarrow> nat \<Rightarrow> nat \<Rightarrow> u8array \<times> memory" where
  "slice heap buffer start stop =
     (let first = min start (byteLength buffer);
          len = min stop (byteLength buffer) - first
      in case kind buffer of
           Buffer \<Rightarrow>
             (buffer\<lparr>byteOffset := byteOffset buffer + first, byteLength := len\<rparr>, heap)
         | Uint8Array \<Rightarrow>
             (\<lparr>kind = Uint8Array, base = length heap, byteOffset = 0, byteLength = len\<rparr>,
              heap @ [take len (drop first (bytes_of heap buffer))]))"

text \<open>
  \<^verbatim>\<open>Array.prototype.push\<close> appends at the end of the array and
  \<^verbatim>\<open>Array.prototype.pop\<close> removes the last element. \<open>pop\<close> is only called on a
  non-empty array (the loop guard of \<^verbatim>\<open>read\<close>).
\<close>

definition push :: "'a list \<Rightarrow> 'a \<Rightarrow> 'a list" where
  "push xs x = xs @ [x]"

definition pop :: "'a list \<Rightarrow> 'a \<times> 'a list" where
  "pop xs = (last xs, butlast xs)"

section \<open>The reader and its environment\<close>

text \<open>
  The errors a call can be rejected with: \<^verbatim>\<open>new Error(endOfStream)\<close>,
  \<^verbatim>\<open>new Error('Stream closed')\<close>, the error value \<open>'e\<close> that the stream passed to its
  \<^verbatim>\<open>'error'\<close> listeners, the \<^verbatim>\<open>AssertionError\<close> of \<^verbatim>\<open>assert.ok\<close>, and the
  \<^verbatim>\<open>TypeError\<close> of calling \<^verbatim>\<open>copy\<close> on an object that has no such method.
\<close>

datatype 'e error = EndOfStream | StreamClosed | SourceError 'e | AssertionError | TypeError

text \<open>
  An \<^verbatim>\<open>async\<close> function that awaits a pending promise is suspended with its local
  variables. The frames waiting on the deferred of a request are kept with it, innermost
  first: \<open>AwaitInRead bytesRead\<close> is \<^verbatim>\<open>read\<close> suspended at line 101 with its
  \<^verbatim>\<open>bytesRead\<close>, \<open>AwaitInPeek offset\<close> is \<^verbatim>\<open>peek\<close> suspended at line 64 with its
  \<^verbatim>\<open>offset\<close> (its buffer is the buffer of the request).
\<close>

datatype frame = AwaitInRead nat | AwaitInPeek nat

text \<open>\<^verbatim>\<open>IReadRequest\<close>; the fields carry a prefix, \<open>length\<close> being the list function.\<close>

record IReadRequest =
  rq_buffer :: u8array
  rq_offset :: nat
  rq_length :: nat
  rq_deferred :: "frame list"

text \<open>
  The fields of \<^verbatim>\<open>StreamReader\<close> (\<open>stream\<close> is the field \<^verbatim>\<open>s\<close>), and the
  \<^verbatim>\<open>once\<close> listeners this module has registered on the stream and that have not
  fired yet: the number of \<^verbatim>\<open>'readable'\<close> listeners, and whether the listeners
  for \<^verbatim>\<open>'end'\<close>, \<^verbatim>\<open>'error'\<close> and \<^verbatim>\<open>'close'\<close> are still there. The field
  \<^verbatim>\<open>peekQueue\<close> is declared \<^verbatim>\<open>Buffer[]\<close>; it holds what \<^verbatim>\<open>peek\<close> pushes.
\<close>

record 's StreamReader =
  request :: "IReadRequest option"
  endOfStream :: bool
  peekQueue :: "u8array list"
  stream :: 's
  once_readable :: nat
  once_end :: bool
  once_error :: bool
  once_close :: bool

text \<open>
  The stream is an external collaborator: its \<^verbatim>\<open>read(size)\<close> is a parameter of the
  model, a function from the state of the stream and the size to the bytes of the
  \<^verbatim>\<open>Buffer\<close> returned (\<open>None\<close> for \<^verbatim>\<open>null\<close>) and the new state of the stream.
  The \<^verbatim>\<open>Buffer\<close> returned is the stream's own: this module reads it once and keeps
  no reference to it, so it is given by its bytes.
\<close>

type_synonym 's sread = "'s \<Rightarrow> nat \<Rightarrow> bytes option \<times> 's"

text \<open>
  What a call of \<^verbatim>\<open>read\<close> or \<^verbatim>\<open>peek\<close> has produced when control returns to the
  event loop: a promise settled with a number of bytes (\<open>Inr\<close>) or an error (\<open>Inl\<close>),
  or a promise still pending on the request stored in the reader; in both cases
  together with the memory (where the caller finds the bytes in its buffer) and the
  reader.
\<close>

datatype ('e, 's) promise =
    Settled "'e error + nat" memory "'s StreamReader"
  | Pending memory "'s StreamReader"

text \<open>The constructor (lines 46 to 53); the type of \<open>s\<close> excludes the throw of line 48.\<close>

definition new_StreamReader :: "'s \<Rightarrow> 's StreamReader" where
  "new_StreamReader src =
     \<lparr>request = None, endOfStream = False, peekQueue = [], stream = src,
      once_readable = 0, once_end = True, once_error = True, once_close = True\<rparr>"

section \<open>read, peek and the low-level read\<close>

text \<open>
  The loop of lines 88 to 98, on the memory, \<^verbatim>\<open>this.peekQueue\<close> (here \<open>queue\<close>),
  the buffer, \<^verbatim>\<open>bytesRead\<close> and \<^verbatim>\<open>remaining\<close>. Line 91 calls
  \<^verbatim>\<open>peekData.copy\<close>: when the chunk popped is no \<^verbatim>\<open>Buffer\<close>, the call throws, and
  the loop ends with the queue and the memory of that moment (\<open>Inl\<close>).
\<close>

function consume_peeked ::
  "memory \<Rightarrow> u8array list \<Rightarrow> u8array \<Rightarrow> nat \<Rightarrow> nat \<Rightarrow> nat \<Rightarrow>
     (u8array list \<times> memory) + (u8array list \<times> memory \<times> nat \<times> nat)" where
  "consume_peeked heap queue buffer offset bytesRead remaining =
     (if length queue > 0 \<and> remaining > 0 then
        (case pop queue of (peekData, popped) \<Rightarrow>
           let lenCopy = min (byteLength peekData) remaining in
           if kind peekData \<noteq> Buffer then Inl (popped, heap)
           else
             let heap' = copy (bytes_of heap peekData) heap buffer (offset + bytesRead) 0 lenCopy
             in
             if lenCopy < byteLength peekData then
               (case slice heap' peekData lenCopy (byteLength peekData) of
                  (rest, heap'') \<Rightarrow>
                    consume_peeked heap'' (push popped rest) buffer offset
                      (bytesRead + lenCopy) (remaining - lenCopy))
             else
               consume_peeked heap' popped buffer offset
                 (bytesRead + lenCopy) (remaining - lenCopy))
      else Inr (queue, heap, bytesRead, remaining))"
  by pat_completeness auto
termination
  by (relation "measures [\<lambda>(h, q, b, off, n, r). length q, \<lambda>(h, q, b, off, n, r). r]")
     (auto simp: pop_def push_def min_def split: if_splits)

declare consume_peeked.simps [simp del]

text \<open>Appending a frame to the deferred of the pending request (an \<^verbatim>\<open>await\<close> on it).\<close>

definition await :: "frame \<Rightarrow> 's StreamReader \<Rightarrow> 's StreamReader" where
  "await f this =
     this\<lparr>request := map_option (\<lambda>r. r\<lparr>rq_deferred := rq_deferred r @ [f]\<rparr>) (request this)\<rparr>"

text \<open>
  \<^verbatim>\<open>_read\<close> (lines 113 to 140). The chunk the stream returns is a \<^verbatim>\<open>Buffer\<close>;
  its \<^verbatim>\<open>copy\<close> writes into the caller's buffer of either kind.
\<close>

definition priv_read ::
  "'s sread \<Rightarrow> memory \<Rightarrow> 's StreamReader \<Rightarrow> u8array \<Rightarrow> nat \<Rightarrow> nat \<Rightarrow> ('e, 's) promise" where
  "priv_read sread heap this buffer offset len =
     (if request this \<noteq> None then Settled (Inl AssertionError) heap this
      else
        (case sread (stream this) len of
           (Some readBuffer, src') \<Rightarrow>
             Settled (Inr (length readBuffer))
               (copy readBuffer heap buffer offset 0 (length readBuffer))
               (this\<lparr>stream := src'\<rparr>)
         | (None, src') \<Rightarrow>
             Pending heap
               (this\<lparr>stream := src',
                     request := Some \<lparr>rq_buffer = buffer, rq_offset = offset,
                                      rq_length = len, rq_deferred = []\<rparr>,
                     once_readable := once_readable this + 1\<rparr>)))"

text \<open>\<^verbatim>\<open>read\<close> (lines 76 to 104).\<close>

definition read ::
  "'s sread \<Rightarrow> memory \<Rightarrow> 's StreamReader \<Rightarrow> u8array \<Rightarrow> nat \<Rightarrow> nat \<Rightarrow> ('e, 's) promise" where
  "read sread heap this buffer offset len =
     (if len = 0 then Settled (Inr 0) heap this
      else if length (peekQueue this) = 0 \<and> endOfStream this
      then Settled (Inl EndOfStream) heap this
      else
        (case consume_peeked heap (peekQueue this) buffer offset 0 len of
           Inl (queue', heap') \<Rightarrow> Settled (Inl TypeError) heap' (this\<lparr>peekQueue := queue'\<rparr>)
         | Inr (queue', heap', bytesRead, remaining) \<Rightarrow>
             let this' = this\<lparr>peekQueue := queue'\<rparr> in
             if remaining > 0 \<and> \<not> endOfStream this' then
               (case priv_read sread heap' this' buffer (offset + bytesRead) remaining of
                  Settled (Inr n) heap'' this'' \<Rightarrow> Settled (Inr (bytesRead + n)) heap'' this''
                | Settled (Inl err) heap'' this'' \<Rightarrow> Settled (Inl err) heap'' this''
                | Pending heap'' this'' \<Rightarrow> Pending heap'' (await (AwaitInRead bytesRead) this''))
             else Settled (Inr bytesRead) heap' this'))"

text \<open>\<^verbatim>\<open>peek\<close> (lines 63 to 67).\<close>

definition peek ::
  "'s sread \<Rightarrow> memory \<Rightarrow> 's StreamReader \<Rightarrow> u8array \<Rightarrow> nat \<Rightarrow> nat \<Rightarrow> ('e, 's) promise" where
  "peek sread heap this buffer offset len =
     (case read sread heap this buffer offset len of
        Settled (Inr bytesRead) heap' this' \<Rightarrow>
          (case slice heap' buffer offset (offset + bytesRead) of
             (chunk, heap'') \<Rightarrow>
               Settled (Inr bytesRead) heap''
                 (this'\<lparr>peekQueue := push (peekQueue this') chunk\<rparr>))
      | Settled (Inl err) heap' this' \<Rightarrow> Settled (Inl err) heap' this'
      | Pending heap' this' \<Rightarrow> Pending heap' (await (AwaitInPeek offset) this'))"

section \<open>Listeners\<close>

text \<open>
  The events of the stream. A listener either settles the pending call (\<open>Delivered\<close>: the
  frames waiting on the deferred run, and the caller receives the result), or returns
  without settling anything (\<open>Silent\<close>), or throws (\<open>Uncaught\<close>: \<^verbatim>\<open>tryRead\<close>
  dereferences \<^verbatim>\<open>this.request\<close>, which is \<^verbatim>\<open>null\<close> after a rejection). The
  reactions of a settled deferred (lines 132 to 138, then the suspended frames) are
  taken in the same step as the settlement.
\<close>

datatype 'e event = Readable | End | Error 'e | Close

datatype ('e, 's) reaction =
    Delivered "'e error + nat" memory "'s StreamReader"
  | Silent memory "'s StreamReader"
  | Uncaught

text \<open>
  The frames resumed with the value \<open>n\<close> of the promise they await: \<^verbatim>\<open>read\<close> adds it
  to its \<^verbatim>\<open>bytesRead\<close> (lines 101 and 103), \<^verbatim>\<open>peek\<close> pushes the slice (line 65).
\<close>

fun resume ::
  "frame list \<Rightarrow> nat \<Rightarrow> u8array \<Rightarrow> memory \<Rightarrow> 's StreamReader \<Rightarrow>
     nat \<times> memory \<times> 's StreamReader" where
  "resume [] n buffer heap this = (n, heap, this)"
| "resume (AwaitInRead bytesRead # frames) n buffer heap this =
     resume frames (bytesRead + n) buffer heap this"
| "resume (AwaitInPeek offset # frames) n buffer heap this =
     (case slice heap buffer offset (offset + n) of
        (chunk, heap') \<Rightarrow>
          resume frames n buffer heap' (this\<lparr>peekQueue := push (peekQueue this) chunk\<rparr>))"

text \<open>\<^verbatim>\<open>tryRead\<close> (lines 142 to 152).\<close>

definition tryRead :: "'s sread \<Rightarrow> memory \<Rightarrow> 's StreamReader \<Rightarrow> ('e, 's) reaction" where
  "tryRead sread heap this =
     (case request this of
        None \<Rightarrow> Uncaught
      | Some r \<Rightarrow>
          (case sread (stream this) (rq_length r) of
             (Some readBuffer, src') \<Rightarrow>
               (case resume (rq_deferred r) (length readBuffer) (rq_buffer r)
                       (copy readBuffer heap (rq_buffer r) (rq_offset r) 0 (length readBuffer))
                       (this\<lparr>stream := src', request := None\<rparr>) of
                  (n, heap', this') \<Rightarrow> Delivered (Inr n) heap' this')
           | (None, src') \<Rightarrow>
               Silent heap (this\<lparr>stream := src', once_readable := once_readable this + 1\<rparr>)))"

text \<open>\<^verbatim>\<open>reject\<close> (lines 154 to 160); no frame catches, so the caller gets \<open>err\<close>.\<close>

definition reject :: "'e error \<Rightarrow> memory \<Rightarrow> 's StreamReader \<Rightarrow> ('e, 's) reaction" where
  "reject err heap this =
     (let this' = this\<lparr>endOfStream := True\<rparr> in
      case request this' of
        None \<Rightarrow> Silent heap this'
      | Some r \<Rightarrow> Delivered (Inl err) heap (this'\<lparr>request := None\<rparr>))"

text \<open>
  The stream emits an event: a \<^verbatim>\<open>once\<close> listener registered by this module
  (lines 50 to 52, 129 and 148) is removed and called.
\<close>

fun emit :: "'s sread \<Rightarrow> 'e event \<Rightarrow> memory \<Rightarrow> 's StreamReader \<Rightarrow> ('e, 's) reaction" where
  "emit sread Readable heap this =
     (if once_readable this = 0 then Silent heap this
      else tryRead sread heap (this\<lparr>once_readable := once_readable this - 1\<rparr>))"
| "emit sread End heap this =
     (if once_end this then reject EndOfStream heap (this\<lparr>once_end := False\<rparr>)
      else Silent heap this)"
| "emit sread (Error err) heap this =
     (if once_error this then reject (SourceError err) heap (this\<lparr>once_error := False\<rparr>)
      else Silent heap this)"
| "emit sread Close heap this =
     (if once_close this then reject StreamClosed heap (this\<lparr>once_close := False\<rparr>)
      else Silent heap this)"

section \<open>Calls and events in sequence\<close>

text \<open>
  Between two listeners the stream changes by itself: data arrives, the end is reached.
  The environment of the reader either emits an event or replaces the state of the
  stream.
\<close>

datatype ('e, 's) env = Emit "'e event" | Change 's

fun env_step ::
  "'s sread \<Rightarrow> ('e, 's) env \<Rightarrow> memory \<Rightarrow> 's StreamReader \<Rightarrow> ('e, 's) reaction" where
  "env_step sread (Emit ev) heap this = emit sread ev heap this"
| "env_step sread (Change src) heap this = Silent heap (this\<lparr>stream := src\<rparr>)"

text \<open>
  The outcome of a call, given its promise and the steps of the environment until the
  promise is settled: the result, the memory and the reader at that moment. \<open>None\<close>
  when the promise is not settled by exactly these steps (it still waits, it was
  settled earlier, or a listener threw).
\<close>

fun outcome ::
  "'s sread \<Rightarrow> ('e, 's) env list \<Rightarrow> ('e, 's) promise \<Rightarrow>
     (('e error + nat) \<times> memory \<times> 's StreamReader) option" where
  "outcome sread [] (Settled res heap this) = Some (res, heap, this)"
| "outcome sread (a # as) (Settled res heap this) = None"
| "outcome sread [] (Pending heap this) = None"
| "outcome sread (a # as) (Pending heap this) =
     (case env_step sread a heap this of
        Delivered res heap' this' \<Rightarrow> (if as = [] then Some (res, heap', this') else None)
      | Silent heap' this' \<Rightarrow> outcome sread as (Pending heap' this')
      | Uncaught \<Rightarrow> None)"

text \<open>
  A run of one caller: calls of \<^verbatim>\<open>read\<close> and \<^verbatim>\<open>peek\<close> and steps of the
  environment. The caller awaits each call before the next one: \<open>busy\<close> says that a
  call is outstanding, and a run in which a call is made then, or a listener throws, is
  no run of one caller (\<open>None\<close>). The results of the settled calls are logged, the
  latest first.
\<close>

datatype ('e, 's) action =
    Call_read u8array nat nat
  | Call_peek u8array nat nat
  | Env "('e, 's) env"

record ('e, 's) caller =
  reader :: "'s StreamReader"
  store :: memory
  busy :: bool
  results :: "('e error + nat) list"

definition called :: "('e, 's) promise \<Rightarrow> ('e, 's) caller \<Rightarrow> ('e, 's) caller option" where
  "called p c =
     (if busy c then None
      else
        (case p of
           Settled res heap this \<Rightarrow>
             Some (c\<lparr>reader := this, store := heap, results := res # results c\<rparr>)
         | Pending heap this \<Rightarrow> Some (c\<lparr>reader := this, store := heap, busy := True\<rparr>)))"

fun step :: "'s sread \<Rightarrow> ('e, 's) action \<Rightarrow> ('e, 's) caller \<Rightarrow> ('e, 's) caller option" where
  "step sread (Call_read buffer offset len) c =
     called (read sread (store c) (reader c) buffer offset len) c"
| "step sread (Call_peek buffer offset len) c =
     called (peek sread (store c) (reader c) buffer offset len) c"
| "step sread (Env a) c =
     (case env_step sread a (store c) (reader c) of
        Delivered res heap this \<Rightarrow>
          Some (c\<lparr>reader := this, store := heap, busy := False, results := res # results c\<rparr>)
      | Silent heap this \<Rightarrow> Some (c\<lparr>reader := this, store := heap\<rparr>)
      | Uncaught \<Rightarrow> None)"

fun run :: "'s sread \<Rightarrow> ('e, 's) action list \<Rightarrow> ('e, 's) caller \<Rightarrow> ('e, 's) caller option" where
  "run sread [] c = Some c"
| "run sread (a # as) c = (case step sread a c of None \<Rightarrow> None | Some c' \<Rightarrow> run sread as c')"

definition fresh_caller :: "memory \<Rightarrow> 's \<Rightarrow> ('e, 's) caller" where
  "fresh_caller heap src =
     \<lparr>reader = new_StreamReader src, store = heap, busy = False, results = []\<rparr>"

section \<open>Notions used in the statements\<close>

text \<open>
  The number of bytes the peek queue holds: the loop of \<^verbatim>\<open>read\<close> counts with the
  \<^verbatim>\<open>length\<close> property of the chunks.
\<close>

definition held :: "u8array list \<Rightarrow> nat" where
  "held queue = sum_list (map byteLength queue)"

text \<open>
  The bytes seen through the chunks of the peek queue, in the order in which the loop
  of \<^verbatim>\<open>read\<close> takes the chunks: the chunk pushed last comes first.
\<close>

definition peeked :: "memory \<Rightarrow> u8array list \<Rightarrow> bytes" where
  "peeked heap queue = concat (rev (map (bytes_of heap) queue))"

text \<open>The chunks of the queue are of the kind the field is declared with.\<close>

definition buffers :: "u8array list \<Rightarrow> bool" where
  "buffers queue = list_all (\<lambda>chunk. kind chunk = Buffer) queue"

text \<open>The bytes \<open>[start, stop)\<close> seen through a buffer.\<close>

definition region :: "memory \<Rightarrow> u8array \<Rightarrow> nat \<Rightarrow> nat \<Rightarrow> bytes" where
  "region heap buffer start stop = take (stop - start) (drop start (bytes_of heap buffer))"

text \<open>A typed array lies within an \<^verbatim>\<open>ArrayBuffer\<close> that is allocated.\<close>

definition inside :: "memory \<Rightarrow> u8array \<Rightarrow> bool" where
  "inside heap v =
     (base v < length heap \<and> byteOffset v + byteLength v \<le> length (load heap (base v)))"

text \<open>
  The buffer and the chunks of the queue lie in memory, and no chunk is on the
  \<^verbatim>\<open>ArrayBuffer\<close> of the buffer: a write into the buffer changes no chunk.
\<close>

definition apart :: "memory \<Rightarrow> u8array \<Rightarrow> u8array list \<Rightarrow> bool" where
  "apart heap buffer queue =
     (inside heap buffer \<and>
      list_all (\<lambda>chunk. inside heap chunk \<and> base chunk \<noteq> base buffer) queue)"

text \<open>
  The contract of the stream's \<^verbatim>\<open>read(size)\<close> the statements on contents rely
  on: the chunk returned has at most \<open>size\<close> bytes.
\<close>

definition at_most_size :: "'s sread \<Rightarrow> bool" where
  "at_most_size sread =
     (\<forall>src n. case fst (sread src n) of None \<Rightarrow> True | Some chunk \<Rightarrow> length chunk \<le> n)"


text \<open>Whether a promise is rejected with the \<^verbatim>\<open>AssertionError\<close> of line 115.\<close>

fun assertion_failed :: "('e, 's) promise \<Rightarrow> bool" where
  "assertion_failed (Settled (Inl AssertionError) heap this) = True"
| "assertion_failed p = False"

text \<open>
  The invariant of the runs of one caller: a request is stored exactly while a call is
  outstanding, and no call was rejected by the assertion.
\<close>

definition one_outstanding :: "('e, 's) caller \<Rightarrow> bool" where
  "one_outstanding c =
     (busy c = (request (reader c) \<noteq> None) \<and> Inl AssertionError \<notin> set (results c))"

text \<open>
  What the memory keeps while bytes are written into a buffer from the position
  \<open>stop\<close> on, or a new \<^verbatim>\<open>ArrayBuffer\<close> is allocated: the \<^verbatim>\<open>ArrayBuffer\<close>s
  allocated and their lengths, and the bytes of the buffer's \<^verbatim>\<open>ArrayBuffer\<close> before
  that position.
\<close>

definition keeps :: "u8array \<Rightarrow> nat \<Rightarrow> memory \<Rightarrow> memory \<Rightarrow> bool" where
  "keeps buffer stop heap heap' =
     (length heap \<le> length heap' \<and>
      (\<forall>a < length heap. length (load heap' a) = length (load heap a)) \<and>
      take (byteOffset buffer + stop) (load heap' (base buffer)) =
        take (byteOffset buffer + stop) (load heap (base buffer)))"

section \<open>A stream and buffers for the examples\<close>

text \<open>
  \<^verbatim>\<open>stream.Readable\<close> in paused mode, as Node documents \<^verbatim>\<open>readable.read(size)\<close>:
  the bytes buffered in the stream and whether the stream has reached its end;
  \<^verbatim>\<open>read(n)\<close> returns \<open>n\<close> bytes when that many are buffered, the rest
  of the buffer when the stream has ended, and \<^verbatim>\<open>null\<close> otherwise. It instantiates
  the parameter \<open>sread\<close> in the examples; the theorems hold for every \<open>sread\<close>.
\<close>

record Readable =
  buffered :: bytes
  ended :: bool

definition node_read :: "Readable sread" where
  "node_read src n =
     (if n = 0 \<or> buffered src = [] then (None, src)
      else if n \<le> length (buffered src)
      then (Some (take n (buffered src)), src\<lparr>buffered := drop n (buffered src)\<rparr>)
      else if ended src then (Some (buffered src), src\<lparr>buffered := []\<rparr>)
      else (None, src))"

text \<open>
  A \<^verbatim>\<open>Buffer\<close> and a plain \<^verbatim>\<open>Uint8Array\<close> on the whole \<^verbatim>\<open>ArrayBuffer\<close> at an
  address, of \<open>n\<close> bytes, and a \<^verbatim>\<open>Buffer\<close> on a part of it.
\<close>

definition buf :: "nat \<Rightarrow> nat \<Rightarrow> u8array" where
  "buf a n = \<lparr>kind = Buffer, base = a, byteOffset = 0, byteLength = n\<rparr>"

definition u8 :: "nat \<Rightarrow> nat \<Rightarrow> u8array" where
  "u8 a n = \<lparr>kind = Uint8Array, base = a, byteOffset = 0, byteLength = n\<rparr>"

definition sub :: "nat \<Rightarrow> nat \<Rightarrow> nat \<Rightarrow> u8array" where
  "sub a off n = \<lparr>kind = Buffer, base = a, byteOffset = off, byteLength = n\<rparr>"

text \<open>The states of the examples.\<close>

definition ex_src :: Readable where
  "ex_src = \<lparr>buffered = [1, 2, 3, 4], ended = False\<rparr>"

definition ex_idle :: "Readable StreamReader" where
  "ex_idle = new_StreamReader \<lparr>buffered = [], ended = False\<rparr>"

definition ex_ended :: "u8array list \<Rightarrow> Readable StreamReader" where
  "ex_ended queue = (new_StreamReader ex_src)\<lparr>endOfStream := True, peekQueue := queue\<rparr>"

definition ex_pending :: "Readable StreamReader" where
  "ex_pending = (new_StreamReader ex_src)\<lparr>request :=
     Some \<lparr>rq_buffer = buf 0 2, rq_offset = 0, rq_length = 2, rq_deferred = [AwaitInRead 0]\<rparr>,
     once_readable := 1\<rparr>"

text \<open>
  A stream that has ended with nothing buffered, and the reader that has seen its
  \<^verbatim>\<open>'end'\<close> with the given chunks queued.
\<close>

definition ex_done :: Readable where
  "ex_done = \<lparr>buffered = [], ended = True\<rparr>"

definition ex_seen_end :: "u8array list \<Rightarrow> Readable StreamReader" where
  "ex_seen_end queue =
     (new_StreamReader ex_done)\<lparr>endOfStream := True, once_end := False, peekQueue := queue\<rparr>"


definition ex_actions :: "(string, Readable) action list" where
  "ex_actions =
     [Call_peek (buf 0 4) 0 4, Call_read (buf 1 5) 0 5,
      Env (Change \<lparr>buffered = [5], ended = False\<rparr>), Env (Emit Readable)]"

section \<open>Writing into memory\<close>

lemma length_overwrite [simp]: "length (overwrite target pos data) = length target"
  by (simp add: overwrite_def)

lemma nth_overwrite:
  "i < length target \<Longrightarrow>
   overwrite target pos data ! i =
     (if pos \<le> i \<and> i < pos + length data then data ! (i - pos) else target ! i)"
  by (auto simp: overwrite_def nth_append)

lemma overwrite_Nil [simp]: "overwrite target pos [] = target"
  by (rule nth_equalityI) (auto simp: nth_overwrite)

lemma overwrite_overwrite:
  "overwrite (overwrite target pos d1) (pos + length d1) d2 = overwrite target pos (d1 @ d2)"
  by (rule nth_equalityI) (auto simp: nth_overwrite nth_append)

lemma take_overwrite: "n \<le> pos \<Longrightarrow> take n (overwrite target pos data) = take n target"
  by (rule nth_equalityI) (auto simp: nth_overwrite)

lemma load_update:
  "load (heap[a := xs]) b = (if a = b \<and> a < length heap then xs else load heap b)"
  by (auto simp: load_def)


lemma length_copy [simp]: "length (copy source heap target pos 0 n) = length heap"
  by (simp add: copy_def Let_def)

lemma load_copy:
  "load (copy source heap target pos 0 n) a =
     (if a = base target \<and> a < length heap \<and> pos < byteLength target \<and> 0 < n
      then overwrite (load heap a) (byteOffset target + pos)
             (take (min n (byteLength target - pos)) source)
      else load heap a)"
  by (auto simp: copy_def Let_def load_update min_def)

lemma length_load_copy [simp]:
  "length (load (copy source heap target pos 0 n) a) = length (load heap a)"
  by (simp add: load_copy)

lemma inside_copy [simp]: "inside (copy source heap target pos 0 n) v = inside heap v"
  by (simp add: inside_def)

lemma length_bytes_of: "inside heap v \<Longrightarrow> length (bytes_of heap v) = byteLength v"
  by (auto simp: inside_def bytes_of_def)

lemma bytes_of_copy_target:
  assumes "inside heap target"
  shows "bytes_of (copy source heap target pos 0 n) target =
           overwrite (bytes_of heap target) pos (take n source)"
proof (rule nth_equalityI)
  show "length (bytes_of (copy source heap target pos 0 n) target) =
        length (overwrite (bytes_of heap target) pos (take n source))"
    using assms by (simp add: length_bytes_of)
next
  fix i
  assume "i < length (bytes_of (copy source heap target pos 0 n) target)"
  with assms have i: "i < byteLength target"
    by (simp add: length_bytes_of)
  from assms have l: "byteOffset target + byteLength target \<le> length (load heap (base target))"
    and b: "base target < length heap"
    by (simp_all add: inside_def)
  from assms have lb: "length (bytes_of heap target) = byteLength target"
    by (rule length_bytes_of)
  from i l have nb: "bytes_of heap target ! i = load heap (base target) ! (byteOffset target + i)"
    by (simp add: bytes_of_def)
  from i l
  have "bytes_of (copy source heap target pos 0 n) target ! i =
      load (copy source heap target pos 0 n) (base target) ! (byteOffset target + i)"
    by (simp add: bytes_of_def)
  also have "\<dots> =
      (if pos \<le> i \<and> i < pos + min n (length source) then source ! (i - pos)
       else load heap (base target) ! (byteOffset target + i))"
  proof (cases "pos \<le> i \<and> i < pos + min n (length source)")
    case True
    with i have "i - pos < min n (byteLength target - pos)" by auto
    then have "take (min n (byteLength target - pos)) source ! (i - pos) = source ! (i - pos)"
      by (rule nth_take)
    with True i l b show ?thesis
      by (auto simp: load_copy nth_overwrite)
  next
    case False
    with i l b show ?thesis
      by (auto simp: load_copy nth_overwrite)
  qed
  also from i lb nb have "\<dots> = overwrite (bytes_of heap target) pos (take n source) ! i"
    by (auto simp: nth_overwrite)
  finally show "bytes_of (copy source heap target pos 0 n) target ! i =
      overwrite (bytes_of heap target) pos (take n source) ! i" .
qed

lemma bytes_of_copy_other:
  "base c \<noteq> base target \<Longrightarrow> bytes_of (copy source heap target pos 0 n) c = bytes_of heap c"
  by (simp add: bytes_of_def load_copy)

section \<open>Regions\<close>

lemma region_empty [simp]: "region heap buffer start start = []"
  by (simp add: region_def)


lemma region_copy:
  assumes "inside heap target" and "pos + length data \<le> byteLength target"
    and "length data \<le> n"
  shows "region (copy data heap target pos 0 n) target pos (pos + length data) = data"
  unfolding region_def bytes_of_copy_target [OF assms(1)]
  using assms by (intro nth_equalityI) (auto simp: nth_overwrite length_bytes_of)

section \<open>What a write keeps\<close>

lemma keeps_refl [simp]: "keeps buffer stop heap heap"
  by (simp add: keeps_def)

lemma keeps_trans:
  "keeps buffer stop h1 h2 \<Longrightarrow> keeps buffer stop h2 h3 \<Longrightarrow> keeps buffer stop h1 h3"
  by (auto simp: keeps_def)

lemma keeps_less:
  assumes "keeps buffer stop heap heap'" and "stop' \<le> stop"
  shows "keeps buffer stop' heap heap'"
proof -
  from assms(1)
  have "take (byteOffset buffer + stop') (take (byteOffset buffer + stop) (load heap' (base buffer))) =
        take (byteOffset buffer + stop') (take (byteOffset buffer + stop) (load heap (base buffer)))"
    by (simp only: keeps_def)
  with assms(2)
  have "take (byteOffset buffer + stop') (load heap' (base buffer)) =
        take (byteOffset buffer + stop') (load heap (base buffer))"
    by (simp add: min_def)
  with assms(1) show ?thesis
    by (simp add: keeps_def)
qed

lemma keeps_copy: "stop \<le> pos \<Longrightarrow> keeps target stop heap (copy source heap target pos 0 n)"
  by (simp add: keeps_def load_copy take_overwrite)


lemma keeps_inside: "keeps buffer stop heap heap' \<Longrightarrow> inside heap v \<Longrightarrow> inside heap' v"
  by (auto simp: keeps_def inside_def)

lemma keeps_region:
  assumes "keeps buffer stop heap heap'" and "e \<le> stop" and "inside heap buffer"
  shows "region heap' buffer s e = region heap buffer s e"
proof (rule nth_equalityI)
  from assms have i': "inside heap' buffer" by (auto dest: keeps_inside)
  with assms(3) show "length (region heap' buffer s e) = length (region heap buffer s e)"
    by (simp add: region_def length_bytes_of)
next
  fix i
  assume "i < length (region heap' buffer s e)"
  then have i: "s + i < e" "s + i < byteLength buffer"
    by (auto simp: region_def bytes_of_def)
  from assms(3) have l: "byteOffset buffer + byteLength buffer \<le> length (load heap (base buffer))"
    by (simp add: inside_def)
  from assms(1,3) have "inside heap' buffer" by (auto dest: keeps_inside)
  then have l': "byteOffset buffer + byteLength buffer \<le> length (load heap' (base buffer))"
    by (simp add: inside_def)
  from assms(1) have "take (byteOffset buffer + stop) (load heap' (base buffer)) ! (byteOffset buffer + s + i) =
      take (byteOffset buffer + stop) (load heap (base buffer)) ! (byteOffset buffer + s + i)"
    by (simp add: keeps_def)
  with i assms(2) have "load heap' (base buffer) ! (byteOffset buffer + s + i) =
      load heap (base buffer) ! (byteOffset buffer + s + i)"
    by simp
  with i l l' show "region heap' buffer s e ! i = region heap buffer s e ! i"
    by (simp add: region_def bytes_of_def add.assoc)
qed

section \<open>Slices\<close>

lemma slice_Buffer:
  "kind b = Buffer \<Longrightarrow>
   slice heap b s e =
     (b\<lparr>byteOffset := byteOffset b + min s (byteLength b),
        byteLength := min e (byteLength b) - min s (byteLength b)\<rparr>, heap)"
  by (simp add: slice_def Let_def)



section \<open>The loop on the peek queue\<close>

lemma peeked_simps [simp]:
  "peeked heap [] = []" "peeked heap (q @ [c]) = bytes_of heap c @ peeked heap q"
  by (simp_all add: peeked_def)

lemma held_simps [simp]: "held [] = 0" "held (q @ [c]) = held q + byteLength c"
  by (simp_all add: held_def)

lemma buffers_simps [simp]:
  "buffers []" "buffers (q @ [c]) = (buffers q \<and> kind c = Buffer)"
  by (auto simp: buffers_def)

lemma apart_simps [simp]:
  "apart heap b [] = inside heap b"
  "apart heap b (q @ [c]) = (apart heap b q \<and> inside heap c \<and> base c \<noteq> base b)"
  by (auto simp: apart_def)

lemma apart_copy [simp]: "apart (copy source heap b pos 0 n) b q = apart heap b q"
  by (simp add: apart_def)

lemma peeked_copy: "apart heap b q \<Longrightarrow> peeked (copy source heap b pos 0 n) q = peeked heap q"
  by (induction q rule: rev_induct) (auto simp: bytes_of_copy_other)

lemma length_peeked: "apart heap b q \<Longrightarrow> length (peeked heap q) = held q"
  by (induction q rule: rev_induct) (auto simp: length_bytes_of)

lemma bytes_of_rest:
  "bytes_of heap (c\<lparr>byteOffset := byteOffset c + n, byteLength := byteLength c - n\<rparr>) =
     drop n (bytes_of heap c)"
  by (simp add: bytes_of_def drop_take add.commute)

lemma inside_rest:
  "inside heap c \<Longrightarrow> n \<le> byteLength c \<Longrightarrow>
   inside heap (c\<lparr>byteOffset := byteOffset c + n, byteLength := byteLength c - n\<rparr>)"
  by (simp add: inside_def)

lemma consume_peeked_stop:
  "queue = [] \<or> remaining = 0 \<Longrightarrow>
   consume_peeked heap queue buffer offset bytesRead remaining =
     Inr (queue, heap, bytesRead, remaining)"
  by (subst consume_peeked.simps) auto

lemma consume_peeked_throw:
  "0 < remaining \<Longrightarrow> kind c \<noteq> Buffer \<Longrightarrow>
   consume_peeked heap (q @ [c]) buffer offset bytesRead remaining = Inl (q, heap)"
  by (subst consume_peeked.simps) (simp add: pop_def Let_def)

lemma consume_peeked_whole:
  "0 < remaining \<Longrightarrow> byteLength c \<le> remaining \<Longrightarrow> kind c = Buffer \<Longrightarrow>
   consume_peeked heap (q @ [c]) buffer offset bytesRead remaining =
   consume_peeked (copy (bytes_of heap c) heap buffer (offset + bytesRead) 0 (byteLength c)) q
     buffer offset (bytesRead + byteLength c) (remaining - byteLength c)"
  by (subst consume_peeked.simps) (simp add: pop_def push_def min_def Let_def)

lemma consume_peeked_part:
  "0 < remaining \<Longrightarrow> remaining < byteLength c \<Longrightarrow> kind c = Buffer \<Longrightarrow>
   consume_peeked heap (q @ [c]) buffer offset bytesRead remaining =
   Inr (q @ [c\<lparr>byteOffset := byteOffset c + remaining,
               byteLength := byteLength c - remaining\<rparr>],
        copy (bytes_of heap c) heap buffer (offset + bytesRead) 0 remaining,
        bytesRead + remaining, 0)"
  by (subst consume_peeked.simps)
     (simp add: pop_def push_def min_def Let_def slice_Buffer consume_peeked_stop)

lemma consume_peeked_count:
  "consume_peeked heap queue buffer offset bytesRead remaining =
     Inr (queue', heap', bytesRead', remaining') \<Longrightarrow>
   bytesRead' = bytesRead + min remaining (held queue) \<and>
   remaining' = remaining - held queue \<and>
   held queue' = held queue - remaining \<and>
   (held queue < remaining \<longrightarrow> queue' = []) \<and>
   (buffers queue \<longrightarrow> buffers queue') \<and>
   keeps buffer (offset + bytesRead) heap heap'"
proof (induction queue arbitrary: heap bytesRead remaining rule: rev_induct)
  case Nil
  then show ?case by (simp add: consume_peeked_stop)
next
  case (snoc c q)
  consider "remaining = 0" | "0 < remaining" "kind c \<noteq> Buffer"
    | "0 < remaining" "remaining < byteLength c" "kind c = Buffer"
    | "0 < remaining" "byteLength c \<le> remaining" "kind c = Buffer"
    by linarith
  then show ?case
  proof cases
    case 1
    with snoc.prems show ?thesis by (simp add: consume_peeked_stop)
  next
    case 2
    with snoc.prems show ?thesis by (simp add: consume_peeked_throw)
  next
    case 3
    with snoc.prems show ?thesis
      by (auto simp: consume_peeked_part keeps_copy)
  next
    case 4
    let ?h = "copy (bytes_of heap c) heap buffer (offset + bytesRead) 0 (byteLength c)"
    from 4 snoc.prems
    have "consume_peeked ?h q buffer offset (bytesRead + byteLength c)
            (remaining - byteLength c) = Inr (queue', heap', bytesRead', remaining')"
      by (simp add: consume_peeked_whole)
    from snoc.IH [OF this]
    have n: "bytesRead' = bytesRead + byteLength c + min (remaining - byteLength c) (held q)"
      and r: "remaining' = remaining - byteLength c - held q"
      and p: "held queue' = held q - (remaining - byteLength c)"
      and e: "held q < remaining - byteLength c \<longrightarrow> queue' = []"
      and k: "buffers q \<longrightarrow> buffers queue'"
      and f: "keeps buffer (offset + (bytesRead + byteLength c)) ?h heap'"
      by simp_all
    from f have "keeps buffer (offset + bytesRead) ?h heap'"
      by (rule keeps_less) simp
    moreover have "keeps buffer (offset + bytesRead) heap ?h"
      by (rule keeps_copy) simp
    ultimately have "keeps buffer (offset + bytesRead) heap heap'"
      by (blast intro: keeps_trans)
    with 4 n r p e k show ?thesis by (auto simp: min_def)
  qed
qed

lemma consume_peeked_bytes:
  "apart heap buffer queue \<Longrightarrow>
   consume_peeked heap queue buffer offset bytesRead remaining =
     Inr (queue', heap', bytesRead', remaining') \<Longrightarrow>
   bytes_of heap' buffer =
     overwrite (bytes_of heap buffer) (offset + bytesRead) (take remaining (peeked heap queue)) \<and>
   peeked heap' queue' = drop remaining (peeked heap queue) \<and>
   apart heap' buffer queue'"
proof (induction queue arbitrary: heap bytesRead remaining rule: rev_induct)
  case Nil
  then show ?case by (simp add: consume_peeked_stop)
next
  case (snoc c q)
  from snoc.prems(1) have ab: "apart heap buffer q" and ic: "inside heap c"
    and bc: "base c \<noteq> base buffer" and ib: "inside heap buffer"
    by (simp_all add: apart_def)
  from ic have lc: "length (bytes_of heap c) = byteLength c" by (rule length_bytes_of)
  consider "remaining = 0" | "0 < remaining" "kind c \<noteq> Buffer"
    | "0 < remaining" "remaining < byteLength c" "kind c = Buffer"
    | "0 < remaining" "byteLength c \<le> remaining" "kind c = Buffer"
    by linarith
  then show ?case
  proof cases
    case 1
    with snoc.prems show ?thesis by (auto simp: consume_peeked_stop)
  next
    case 2
    with snoc.prems show ?thesis by (simp add: consume_peeked_throw)
  next
    case 3
    let ?h = "copy (bytes_of heap c) heap buffer (offset + bytesRead) 0 remaining"
    let ?c = "c\<lparr>byteOffset := byteOffset c + remaining, byteLength := byteLength c - remaining\<rparr>"
    from 3 snoc.prems(2) have q': "queue' = q @ [?c]" and h': "heap' = ?h"
      by (simp_all add: consume_peeked_part)
    have "bytes_of ?h ?c = drop remaining (bytes_of ?h c)" by (rule bytes_of_rest)
    with bc have "bytes_of ?h ?c = drop remaining (bytes_of heap c)"
      by (simp add: bytes_of_copy_other)
    moreover from 3 ic have "inside heap ?c" by (intro inside_rest) simp_all
    ultimately show ?thesis
      using 3 ab bc lc ib unfolding q' h'
      by (simp add: bytes_of_copy_target peeked_copy)
  next
    case 4
    let ?h = "copy (bytes_of heap c) heap buffer (offset + bytesRead) 0 (byteLength c)"
    from 4 snoc.prems(2)
    have "consume_peeked ?h q buffer offset (bytesRead + byteLength c)
            (remaining - byteLength c) = Inr (queue', heap', bytesRead', remaining')"
      by (simp add: consume_peeked_whole)
    moreover from ab have "apart ?h buffer q" by simp
    ultimately
    have b: "bytes_of heap' buffer = overwrite (bytes_of ?h buffer)
               (offset + (bytesRead + byteLength c))
               (take (remaining - byteLength c) (peeked ?h q))"
      and p: "peeked heap' queue' = drop (remaining - byteLength c) (peeked ?h q)"
      and a: "apart heap' buffer queue'"
      using snoc.IH [of ?h "bytesRead + byteLength c" "remaining - byteLength c"] by simp_all
    from ab have pq: "peeked ?h q = peeked heap q" by (rule peeked_copy)
    from ib lc have hb: "bytes_of ?h buffer =
        overwrite (bytes_of heap buffer) (offset + bytesRead) (bytes_of heap c)"
      by (simp add: bytes_of_copy_target)
    have w: "overwrite (overwrite (bytes_of heap buffer) (offset + bytesRead) (bytes_of heap c))
               (offset + (bytesRead + byteLength c))
               (take (remaining - byteLength c) (peeked heap q)) =
             overwrite (bytes_of heap buffer) (offset + bytesRead)
               (bytes_of heap c @ take (remaining - byteLength c) (peeked heap q))"
      using overwrite_overwrite [of "bytes_of heap buffer" "offset + bytesRead" "bytes_of heap c"] lc
      by (simp add: add.assoc)
    from b p a w 4 show ?thesis
      unfolding pq hb by (simp add: lc)
  qed
qed


section \<open>The request and the outstanding call\<close>

lemma resume_keeps:
  "resume frames n buffer heap this = (m, heap', this') \<Longrightarrow>
   request this' = request this \<and> endOfStream this' = endOfStream this \<and>
   stream this' = stream this"
  by (induction frames n buffer heap this rule: resume.induct) (auto split: prod.splits)

lemma priv_read_Settled:
  "priv_read sread heap this buffer offset len = Settled res heap' this' \<Longrightarrow>
   request this = None \<Longrightarrow> request this' = None \<and> res \<noteq> Inl AssertionError"
  by (auto simp: priv_read_def split: prod.splits option.splits)

lemma priv_read_Pending:
  "priv_read sread heap this buffer offset len = Pending heap' this' \<Longrightarrow> request this' \<noteq> None"
  by (auto simp: priv_read_def split: if_splits prod.splits option.splits)

lemma read_Settled:
  "read sread heap this buffer offset len = Settled res heap' this' \<Longrightarrow>
   request this = None \<Longrightarrow> request this' = None \<and> res \<noteq> Inl AssertionError"
  by (auto simp: read_def Let_def
      split: if_splits prod.splits promise.splits sum.splits dest: priv_read_Settled)

lemma read_Pending:
  "read sread heap this buffer offset len = Pending heap' this' \<Longrightarrow> request this' \<noteq> None"
  by (auto simp: read_def Let_def await_def
      split: if_splits prod.splits promise.splits sum.splits dest: priv_read_Pending)

lemma peek_Settled:
  "peek sread heap this buffer offset len = Settled res heap' this' \<Longrightarrow>
   request this = None \<Longrightarrow> request this' = None \<and> res \<noteq> Inl AssertionError"
  by (auto simp: peek_def split: promise.splits sum.splits prod.splits dest: read_Settled)

lemma peek_Pending:
  "peek sread heap this buffer offset len = Pending heap' this' \<Longrightarrow> request this' \<noteq> None"
  by (auto simp: peek_def await_def split: promise.splits sum.splits prod.splits
      dest: read_Pending)

lemma tryRead_Delivered:
  "tryRead sread heap this = Delivered res heap' this' \<Longrightarrow>
   request this \<noteq> None \<and> request this' = None \<and> res \<noteq> Inl AssertionError"
  by (auto simp: tryRead_def Let_def split: option.splits prod.splits dest: resume_keeps)

lemma tryRead_Silent:
  "tryRead sread heap this = Silent heap' this' \<Longrightarrow>
   request this' = request this \<and> request this \<noteq> None"
  by (auto simp: tryRead_def Let_def split: option.splits prod.splits)

lemma reject_Delivered:
  "reject err heap this = Delivered res heap' this' \<Longrightarrow>
   request this \<noteq> None \<and> request this' = None \<and> res = Inl err"
  by (auto simp: reject_def Let_def split: option.splits)

lemma reject_Silent:
  "reject err heap this = Silent heap' this' \<Longrightarrow> request this' = None \<and> request this = None"
  by (auto simp: reject_def Let_def split: option.splits)

lemma env_step_Delivered:
  "env_step sread a heap this = Delivered res heap' this' \<Longrightarrow>
   request this \<noteq> None \<and> request this' = None \<and> res \<noteq> Inl AssertionError"
proof (cases a)
  case (Emit ev)
  assume d: "env_step sread a heap this = Delivered res heap' this'"
  show ?thesis
  proof (cases ev)
    case Readable
    with Emit d show ?thesis
      by (auto split: if_splits dest: tryRead_Delivered)
  next
    case End
    with Emit d show ?thesis
      by (auto split: if_splits dest: reject_Delivered)
  next
    case (Error err)
    with Emit d show ?thesis
      by (auto split: if_splits dest: reject_Delivered)
  next
    case Close
    with Emit d show ?thesis
      by (auto split: if_splits dest: reject_Delivered)
  qed
next
  case (Change src)
  assume "env_step sread a heap this = Delivered res heap' this'"
  with Change show ?thesis by simp
qed

lemma env_step_Silent:
  "env_step sread a heap this = Silent heap' this' \<Longrightarrow>
   (request this' = None) = (request this = None)"
proof (cases a)
  case (Emit ev)
  assume d: "env_step sread a heap this = Silent heap' this'"
  show ?thesis
  proof (cases ev)
    case Readable
    with Emit d show ?thesis
      by (auto split: if_splits dest: tryRead_Silent)
  next
    case End
    with Emit d show ?thesis
      by (auto split: if_splits dest: reject_Silent)
  next
    case (Error err)
    with Emit d show ?thesis
      by (auto split: if_splits dest: reject_Silent)
  next
    case Close
    with Emit d show ?thesis
      by (auto split: if_splits dest: reject_Silent)
  qed
next
  case (Change src)
  assume "env_step sread a heap this = Silent heap' this'"
  with Change show ?thesis by auto
qed

lemma step_one_outstanding:
  assumes "one_outstanding c" and "step sread a c = Some c'"
  shows "one_outstanding c'"
proof (cases a)
  case (Call_read buffer offset len)
  with assms show ?thesis
    by (auto simp: one_outstanding_def called_def split: if_splits promise.splits
        dest: read_Settled read_Pending)
next
  case (Call_peek buffer offset len)
  with assms show ?thesis
    by (auto simp: one_outstanding_def called_def split: if_splits promise.splits
        dest: peek_Settled peek_Pending)
next
  case (Env e)
  with assms show ?thesis
    by (auto simp: one_outstanding_def split: reaction.splits
        dest: env_step_Delivered env_step_Silent)
qed

lemma run_one_outstanding:
  "one_outstanding c \<Longrightarrow> run sread acts c = Some c' \<Longrightarrow> one_outstanding c'"
proof (induction acts arbitrary: c)
  case Nil
  then show ?case by simp
next
  case (Cons a acts)
  then show ?case
    by (auto split: option.splits dest: step_one_outstanding)
qed

lemma fresh_one_outstanding: "one_outstanding (fresh_caller heap src)"
  by (simp add: one_outstanding_def fresh_caller_def new_StreamReader_def)

lemma not_failed_iff:
  "(\<not> assertion_failed p) =
     (case p of Settled res heap this \<Rightarrow> res \<noteq> Inl AssertionError | Pending heap this \<Rightarrow> True)"
  by (cases p rule: assertion_failed.cases) auto

section \<open>The end of the stream stays\<close>

lemma priv_read_ended:
  "priv_read sread heap this buffer offset len = Settled res heap' this' \<Longrightarrow>
   endOfStream this' = endOfStream this"
  "priv_read sread heap this buffer offset len = Pending heap' this' \<Longrightarrow>
   endOfStream this' = endOfStream this"
  by (auto simp: priv_read_def split: if_splits prod.splits option.splits)

lemma read_ended:
  "read sread heap this buffer offset len = Settled res heap' this' \<Longrightarrow>
   endOfStream this' = endOfStream this"
  "read sread heap this buffer offset len = Pending heap' this' \<Longrightarrow>
   endOfStream this' = endOfStream this"
  by (auto simp: read_def Let_def await_def
      split: if_splits prod.splits promise.splits sum.splits dest: priv_read_ended)

lemma peek_ended:
  "peek sread heap this buffer offset len = Settled res heap' this' \<Longrightarrow>
   endOfStream this' = endOfStream this"
  "peek sread heap this buffer offset len = Pending heap' this' \<Longrightarrow>
   endOfStream this' = endOfStream this"
  by (auto simp: peek_def await_def split: promise.splits sum.splits prod.splits
      dest: read_ended)

lemma env_step_ended:
  assumes "endOfStream this"
  shows "env_step sread a heap this = Delivered res heap' this' \<Longrightarrow> endOfStream this'"
    and "env_step sread a heap this = Silent heap' this' \<Longrightarrow> endOfStream this'"
proof -
  have "(env_step sread a heap this = Delivered res heap' this' \<longrightarrow> endOfStream this') \<and>
        (env_step sread a heap this = Silent heap' this' \<longrightarrow> endOfStream this')"
  proof (cases a)
    case (Emit ev)
    with assms show ?thesis
      by (cases ev)
         (auto simp: tryRead_def reject_def Let_def
            split: if_splits prod.splits option.splits dest: resume_keeps)
  next
    case (Change src)
    with assms show ?thesis by auto
  qed
  then show "env_step sread a heap this = Delivered res heap' this' \<Longrightarrow> endOfStream this'"
    and "env_step sread a heap this = Silent heap' this' \<Longrightarrow> endOfStream this'"
    by simp_all
qed

lemma step_ended:
  assumes "endOfStream (reader c)" and "step sread a c = Some c'"
  shows "endOfStream (reader c')"
proof (cases a)
  case (Call_read buffer offset len)
  with assms show ?thesis
    by (auto simp: called_def split: if_splits promise.splits dest: read_ended)
next
  case (Call_peek buffer offset len)
  with assms show ?thesis
    by (auto simp: called_def split: if_splits promise.splits dest: peek_ended)
next
  case (Env e)
  with assms show ?thesis
    by (auto split: reaction.splits dest: env_step_ended)
qed

lemma run_ended:
  "endOfStream (reader c) \<Longrightarrow> run sread acts c = Some c' \<Longrightarrow> endOfStream (reader c')"
proof (induction acts arbitrary: c)
  case Nil
  then show ?case by simp
next
  case (Cons a acts)
  then show ?case
    by (auto split: option.splits dest: step_ended)
qed

section \<open>What a call delivers\<close>

lemma at_most_sizeD:
  "at_most_size sread \<Longrightarrow> sread src n = (Some chunk, src') \<Longrightarrow> length chunk \<le> n"
  by (auto simp: at_most_size_def split: option.splits dest!: spec [of _ src] spec [of _ n])

lemma read_Inr:
  assumes "0 < len" and "\<not> (peekQueue this = [] \<and> endOfStream this)"
    and "consume_peeked heap (peekQueue this) buffer offset 0 len =
           Inr (queue', heap', bytesRead, remaining)"
  shows "read sread heap this buffer offset len =
    (if 0 < remaining \<and> \<not> endOfStream this then
       (case priv_read sread heap' (this\<lparr>peekQueue := queue'\<rparr>) buffer (offset + bytesRead)
               remaining of
          Settled (Inr n) heap'' this'' \<Rightarrow> Settled (Inr (bytesRead + n)) heap'' this''
        | Settled (Inl err) heap'' this'' \<Rightarrow> Settled (Inl err) heap'' this''
        | Pending heap'' this'' \<Rightarrow> Pending heap'' (await (AwaitInRead bytesRead) this''))
     else Settled (Inr bytesRead) heap' (this\<lparr>peekQueue := queue'\<rparr>))"
proof -
  from assms(1,2) have "len \<noteq> 0" and "\<not> (length (peekQueue this) = 0 \<and> endOfStream this)"
    by simp_all
  then show ?thesis
    unfolding read_def assms(3) by (simp add: Let_def)
qed

lemma read_not_thrown:
  assumes "read sread heap this buffer offset len = p" and "0 < len"
    and "\<And>heap' this'. p \<noteq> Settled (Inl TypeError) heap' this'"
    and "\<And>heap' this'. p \<noteq> Settled (Inl EndOfStream) heap' this'"
  shows "\<not> (peekQueue this = [] \<and> endOfStream this) \<and>
         (\<exists>queue' heap' bytesRead remaining.
            consume_peeked heap (peekQueue this) buffer offset 0 len =
              Inr (queue', heap', bytesRead, remaining))"
proof (cases "consume_peeked heap (peekQueue this) buffer offset 0 len")
  case (Inl a)
  with assms show ?thesis
    by (cases a) (auto simp: read_def split: if_splits)
next
  case (Inr b)
  with assms show ?thesis
    by (cases b) (auto simp: read_def split: if_splits)
qed

lemma read_Settled_loop:
  assumes "at_most_size sread" and "0 < len"
    and "read sread heap this buffer offset len = Settled (Inr n) heap' this'"
  shows "\<exists>queue1 heap1 bytesRead remaining.
           consume_peeked heap (peekQueue this) buffer offset 0 len =
             Inr (queue1, heap1, bytesRead, remaining) \<and>
           bytesRead \<le> n \<and> n \<le> bytesRead + remaining \<and>
           keeps buffer (offset + bytesRead) heap1 heap' \<and>
           peekQueue this' = queue1 \<and> endOfStream this' = endOfStream this"
proof -
  from read_not_thrown [OF assms(3,2)] obtain queue1 heap1 bytesRead remaining where
    ne: "\<not> (peekQueue this = [] \<and> endOfStream this)"
    and c: "consume_peeked heap (peekQueue this) buffer offset 0 len =
              Inr (queue1, heap1, bytesRead, remaining)"
    by auto
  note eq = assms(3) [unfolded read_Inr [OF assms(2) ne c]]
  show ?thesis
  proof (cases "0 < remaining \<and> \<not> endOfStream this")
    case True
    with eq obtain chunk src' where
      s: "sread (stream this) remaining = (Some chunk, src')"
      and n: "n = bytesRead + length chunk"
      and b: "heap' = copy chunk heap1 buffer (offset + bytesRead) 0 (length chunk)"
      and t: "this' = this\<lparr>peekQueue := queue1, stream := src'\<rparr>"
      by (auto simp: priv_read_def split: if_splits prod.splits option.splits)
    from assms(1) s have "length chunk \<le> remaining" by (rule at_most_sizeD)
    with c n b t show ?thesis by (simp add: keeps_copy)
  next
    case False
    with eq have "n = bytesRead" and "heap' = heap1" and "this' = this\<lparr>peekQueue := queue1\<rparr>"
      by (auto split: if_splits)
    with c show ?thesis by simp
  qed
qed

lemma read_Pending_request:
  assumes "read sread heap this buffer offset len = Pending heapp p"
  shows "\<exists>queue1 bytesRead remaining.
           consume_peeked heap (peekQueue this) buffer offset 0 len =
             Inr (queue1, heapp, bytesRead, remaining) \<and>
           request p = Some \<lparr>rq_buffer = buffer, rq_offset = offset + bytesRead,
                              rq_length = remaining, rq_deferred = [AwaitInRead bytesRead]\<rparr> \<and>
           peekQueue p = queue1 \<and> endOfStream p = endOfStream this \<and>
           0 < remaining \<and> 0 < len \<and>
           once_readable p = once_readable this + 1 \<and> once_end p = once_end this"
proof -
  from assms have pos: "0 < len" by (cases "len = 0") (simp_all add: read_def)
  from read_not_thrown [OF assms pos] obtain queue1 heap1 bytesRead remaining where
    ne: "\<not> (peekQueue this = [] \<and> endOfStream this)"
    and c: "consume_peeked heap (peekQueue this) buffer offset 0 len =
              Inr (queue1, heap1, bytesRead, remaining)"
    by auto
  note eq = assms [unfolded read_Inr [OF pos ne c]]
  from eq have rem: "0 < remaining" by (auto split: if_splits)
  with eq c pos show ?thesis
    by (auto simp: priv_read_def await_def split: if_splits prod.splits option.splits)
qed

section \<open>A pending call\<close>

lemma env_step_Silent_pending:
  assumes "env_step sread a heap this = Silent heap' this'" and "request this = Some r"
  shows "heap' = heap \<and> request this' = Some r \<and> peekQueue this' = peekQueue this \<and>
         endOfStream this' = endOfStream this"
proof (cases a)
  case (Emit ev)
  with assms show ?thesis
    by (cases ev)
       (auto simp: tryRead_def reject_def Let_def split: if_splits prod.splits option.splits)
next
  case (Change src)
  with assms show ?thesis by auto
qed

lemma env_step_Delivered_pending:
  assumes "at_most_size sread" and "request this = Some r"
    and "env_step sread a heap this = Delivered (Inr n) heap' this'"
  shows "\<exists>chunk this0. length chunk \<le> rq_length r \<and>
           resume (rq_deferred r) (length chunk) (rq_buffer r)
             (copy chunk heap (rq_buffer r) (rq_offset r) 0 (length chunk)) this0 =
             (n, heap', this') \<and>
           peekQueue this0 = peekQueue this \<and> endOfStream this0 = endOfStream this \<and>
           request this0 = None"
proof (cases a)
  case (Emit ev)
  show ?thesis
  proof (cases ev)
    case Readable
    with Emit assms(2,3) obtain chunk src' where
      s: "sread (stream this) (rq_length r) = (Some chunk, src')"
      and k: "resume (rq_deferred r) (length chunk) (rq_buffer r)
                (copy chunk heap (rq_buffer r) (rq_offset r) 0 (length chunk))
                (this\<lparr>once_readable := once_readable this - 1, stream := src', request := None\<rparr>) =
              (n, heap', this')"
      by (auto simp: tryRead_def Let_def split: if_splits prod.splits option.splits)
    from assms(1) s have "length chunk \<le> rq_length r" by (rule at_most_sizeD)
    with k show ?thesis
      by (intro exI [of _ chunk]
          exI [of _ "this\<lparr>once_readable := once_readable this - 1, stream := src', request := None\<rparr>"])
         simp
  next
    case End
    with Emit assms(3) show ?thesis
      by (auto simp: reject_def Let_def split: if_splits option.splits)
  next
    case (Error err)
    with Emit assms(3) show ?thesis
      by (auto simp: reject_def Let_def split: if_splits option.splits)
  next
    case Close
    with Emit assms(3) show ?thesis
      by (auto simp: reject_def Let_def split: if_splits option.splits)
  qed
next
  case (Change src)
  with assms(3) show ?thesis by simp
qed

lemma outcome_Pending:
  assumes "at_most_size sread"
  shows "request this = Some r \<Longrightarrow>
         outcome sread evs (Pending heap this) = Some (Inr n, heap', this') \<Longrightarrow>
         \<exists>chunk this0. length chunk \<le> rq_length r \<and>
           resume (rq_deferred r) (length chunk) (rq_buffer r)
             (copy chunk heap (rq_buffer r) (rq_offset r) 0 (length chunk)) this0 =
             (n, heap', this') \<and>
           peekQueue this0 = peekQueue this \<and> endOfStream this0 = endOfStream this \<and>
           request this0 = None"
proof (induction evs arbitrary: this)
  case Nil
  then show ?case by simp
next
  case (Cons a evs)
  show ?case
  proof (cases "env_step sread a heap this")
    case (Delivered res heap'' this'')
    with Cons.prems(2) have "env_step sread a heap this = Delivered (Inr n) heap' this'"
      by (auto split: if_splits)
    with assms Cons.prems(1) show ?thesis
      by (rule env_step_Delivered_pending)
  next
    case (Silent heap'' this'')
    with Cons.prems(2)
    have o: "outcome sread evs (Pending heap'' this'') = Some (Inr n, heap', this')"
      by simp
    from Silent Cons.prems(1)
    have k: "heap'' = heap \<and> request this'' = Some r \<and> peekQueue this'' = peekQueue this \<and>
        endOfStream this'' = endOfStream this"
      by (rule env_step_Silent_pending)
    with Cons.IH [of this''] o show ?thesis by auto
  next
    case Uncaught
    with Cons.prems(2) show ?thesis by simp
  qed
qed

section \<open>The outcome of read and of peek\<close>

lemma read_outcome:
  assumes "at_most_size sread" and "0 < len"
    and "outcome sread evs (read sread heap this buffer offset len :: ('e, 's) promise) =
           Some (Inr n, heap', this')"
  shows "\<exists>queue1 heap1 bytesRead remaining.
           consume_peeked heap (peekQueue this) buffer offset 0 len =
             Inr (queue1, heap1, bytesRead, remaining) \<and>
           bytesRead \<le> n \<and> n \<le> bytesRead + remaining \<and>
           keeps buffer (offset + bytesRead) heap1 heap' \<and>
           peekQueue this' = queue1 \<and> endOfStream this' = endOfStream this"
proof (cases "read sread heap this buffer offset len :: ('e, 's) promise")
  case (Settled res heap'' this'')
  with assms(3)
  have "read sread heap this buffer offset len =
      (Settled (Inr n) heap' this' :: ('e, 's) promise)"
    by (cases evs) auto
  with assms(1,2) show ?thesis by (rule read_Settled_loop)
next
  case (Pending heapp p)
  from read_Pending_request [OF Pending] obtain queue1 bytesRead remaining where
    c: "consume_peeked heap (peekQueue this) buffer offset 0 len =
          Inr (queue1, heapp, bytesRead, remaining)"
    and r: "request p = Some \<lparr>rq_buffer = buffer, rq_offset = offset + bytesRead,
              rq_length = remaining, rq_deferred = [AwaitInRead bytesRead]\<rparr>"
    and q: "peekQueue p = queue1" and e: "endOfStream p = endOfStream this"
    by blast
  from assms(3) Pending
  have "outcome sread evs (Pending heapp p :: ('e, 's) promise) = Some (Inr n, heap', this')"
    by simp
  from outcome_Pending [OF assms(1) r this] q e
  obtain chunk where "length chunk \<le> remaining"
    and "heap' = copy chunk heapp buffer (offset + bytesRead) 0 (length chunk)"
    and "n = bytesRead + length chunk"
    and "peekQueue this' = queue1" and "endOfStream this' = endOfStream this"
    by auto
  with c show ?thesis by (simp add: keeps_copy)
qed



section \<open>The chunk pushed by peek, and the chunk taken first\<close>


lemma region_overwritten:
  assumes "inside heap b" and "bytes_of heap' b = overwrite (bytes_of heap b) pos data"
  shows "region heap' b pos (pos + length data) = take (byteLength b - pos) data"
  unfolding region_def assms(2)
  using assms(1) by (intro nth_equalityI) (auto simp: nth_overwrite length_bytes_of)



lemma consume_peeked_top_first:
  assumes "consume_peeked heap (rest @ [c]) buffer offset bytesRead remaining =
             Inr (queue', heap', bytesRead', remaining')"
    and "0 < remaining" and "byteLength c \<le> remaining"
    and "inside heap buffer" and "inside heap c"
    and "offset + bytesRead + byteLength c \<le> byteLength buffer"
  shows "region heap' buffer (offset + bytesRead) (offset + bytesRead + byteLength c) =
           bytes_of heap c"
proof -
  let ?h = "copy (bytes_of heap c) heap buffer (offset + bytesRead) 0 (byteLength c)"
  have kc: "kind c = Buffer"
  proof (rule ccontr)
    assume "kind c \<noteq> Buffer"
    with assms(2)
    have "consume_peeked heap (rest @ [c]) buffer offset bytesRead remaining = Inl (rest, heap)"
      by (rule consume_peeked_throw)
    with assms(1) show False by simp
  qed
  from assms(1,2,3) kc
  have "consume_peeked ?h rest buffer offset (bytesRead + byteLength c)
          (remaining - byteLength c) = Inr (queue', heap', bytesRead', remaining')"
    by (simp add: consume_peeked_whole)
  from consume_peeked_count [OF this]
  have k: "keeps buffer (offset + (bytesRead + byteLength c)) ?h heap'"
    by simp
  from assms(4) have ih: "inside ?h buffer" by simp
  from assms(5) have l: "length (bytes_of heap c) = byteLength c" by (rule length_bytes_of)
  from keeps_region [OF k _ ih, of "offset + bytesRead + byteLength c" "offset + bytesRead"]
  have "region heap' buffer (offset + bytesRead) (offset + bytesRead + byteLength c) =
      region ?h buffer (offset + bytesRead) (offset + bytesRead + byteLength c)"
    by (simp add: add.assoc)
  also from assms(4,6) l have "\<dots> = bytes_of heap c"
    using region_copy [of heap buffer "offset + bytesRead" "bytes_of heap c" "byteLength c"]
    by simp
  finally show ?thesis .
qed

section \<open>Evaluating the examples\<close>


lemmas example_defs = peek_def read_def consume_peeked.simps priv_read_def node_read_def
  new_StreamReader_def ex_src_def ex_idle_def ex_done_def ex_seen_end_def ex_ended_def
  await_def tryRead_def reject_def push_def pop_def
  slice_def copy_def region_def bytes_of_def load_def overwrite_def inside_def apart_def
  peeked_def held_def buffers_def buf_def u8_def sub_def called_def fresh_caller_def Let_def

section \<open>Reading of length zero\<close>

text \<open>
  C8. \<^verbatim>\<open>read(buffer, offset, 0)\<close> is settled with 0 at once, for every buffer, offset
  and reader and whatever the stream's \<^verbatim>\<open>read\<close> does: the memory (so the buffer), the
  peek queue and the state of the stream are those before the call, so the stream was not
  called.
\<close>

theorem read_zero_length:
  "read sread heap this buffer offset 0 = Settled (Inr 0) heap this"
  by (simp add: read_def)

section \<open>Reading after the stream has terminated\<close>




section \<open>A short read at the end of the stream\<close>

text \<open>
  C4. A \<^verbatim>\<open>read\<close> whose loop takes \<open>bytesRead > 0\<close> bytes from the peek queue and
  leaves \<open>remaining > 0\<close> while the reader has seen the stream terminate is settled
  at once with \<open>bytesRead\<close> and no error: the result and the memory are what the loop
  left, the queue is then empty, and the bytes are all the bytes that were queued. The
  buffer holds from \<open>offset\<close> on the bytes of the chunk taken first, as they were at
  the call (buffer and chunk lying in memory, the chunk fitting in the buffer), also when
  they share memory. When the buffer and the chunks lie in memory and no chunk is on the
  \<^verbatim>\<open>ArrayBuffer\<close> of the buffer, the region of the buffer from \<open>offset\<close> holds the
  bytes of all the chunks in the order of the queue, as far as the buffer reaches.
\<close>

theorem read_partial_at_end:
  assumes "endOfStream this"
    and "consume_peeked heap (peekQueue this) buffer offset 0 len =
           Inr (queue', heap', bytesRead, remaining)"
    and "0 < bytesRead" and "0 < remaining"
  shows "read sread heap this buffer offset len =
           (Settled (Inr bytesRead) heap' (this\<lparr>peekQueue := queue'\<rparr>) :: ('e, 's) promise) \<and>
         queue' = [] \<and> bytesRead = held (peekQueue this) \<and> bytesRead < len \<and>
         (\<forall>rest c. peekQueue this = rest @ [c] \<and> inside heap buffer \<and> inside heap c \<and>
            offset + byteLength c \<le> byteLength buffer \<longrightarrow>
            region heap' buffer offset (offset + byteLength c) = bytes_of heap c) \<and>
         (apart heap buffer (peekQueue this) \<longrightarrow>
            region heap' buffer offset (offset + bytesRead) =
              take (byteLength buffer - offset) (peeked heap (peekQueue this)))"
proof -
  let ?q = "peekQueue this"
  from consume_peeked_count [OF assms(2)]
  have n: "bytesRead = min len (held ?q)" and r: "remaining = len - held ?q"
    and e: "held ?q < len \<longrightarrow> queue' = []"
    by simp_all
  from r assms(4) have lt: "held ?q < len" by simp
  with n e have n': "bytesRead = held ?q" and q: "queue' = []" by simp_all
  from lt have pos: "0 < len" by simp
  from n' assms(3) have ne: "\<not> (?q = [] \<and> endOfStream this)" by auto
  from assms(1) have "read sread heap this buffer offset len =
      (Settled (Inr bytesRead) heap' (this\<lparr>peekQueue := queue'\<rparr>) :: ('e, 's) promise)"
    by (simp add: read_Inr [OF pos ne assms(2)])
  moreover have "region heap' buffer offset (offset + bytesRead) =
      take (byteLength buffer - offset) (peeked heap ?q)"
    if a: "apart heap buffer ?q"
  proof -
    from a have l: "length (peeked heap ?q) = held ?q" by (rule length_peeked)
    from consume_peeked_bytes [OF a assms(2)] lt l
    have b: "bytes_of heap' buffer = overwrite (bytes_of heap buffer) offset (peeked heap ?q)"
      by simp
    from a have i: "inside heap buffer" by (simp add: apart_def)
    from region_overwritten [OF i b] l n' show ?thesis by simp
  qed
  moreover have "region heap' buffer offset (offset + byteLength c) = bytes_of heap c"
    if t: "?q = rest @ [c] \<and> inside heap buffer \<and> inside heap c \<and>
        offset + byteLength c \<le> byteLength buffer" for rest c
  proof -
    from t lt have "byteLength c \<le> len" by simp
    with consume_peeked_top_first [of heap rest c buffer offset 0 len queue' heap' bytesRead
        remaining] assms(2) pos t
    show ?thesis by simp
  qed
  ultimately show ?thesis using q n' lt by simp
qed

theorem read_partial_at_end_witness:
  "endOfStream (ex_seen_end [buf 0 2, buf 1 2]) \<and>
   consume_peeked [[3, 4], [1, 2], [0, 0, 0, 0, 0, 0]] (peekQueue (ex_seen_end [buf 0 2, buf 1 2]))
       (buf 2 6) 0 0 6 =
     Inr ([], [[3, 4], [1, 2], [1, 2, 3, 4, 0, 0]], 4, 2) \<and>
   read node_read [[3, 4], [1, 2], [0, 0, 0, 0, 0, 0]] (ex_seen_end [buf 0 2, buf 1 2])
       (buf 2 6) 0 6 =
     (Settled (Inr 4) [[3, 4], [1, 2], [1, 2, 3, 4, 0, 0]] (ex_seen_end [])
        :: (string, Readable) promise) \<and>
   region [[3, 4], [1, 2], [1, 2, 3, 4, 0, 0]] (buf 2 6) 0 4 = [1, 2, 3, 4]"
proof -
  have e: "endOfStream (ex_seen_end [buf 0 2, buf 1 2])"
    by (simp add: ex_seen_end_def)
  have c: "consume_peeked [[3, 4], [1, 2], [0, 0, 0, 0, 0, 0]]
      (peekQueue (ex_seen_end [buf 0 2, buf 1 2])) (buf 2 6) 0 0 6 =
      Inr ([], [[3, 4], [1, 2], [1, 2, 3, 4, 0, 0]], 4, 2)"
    by (simp add: example_defs numeral_2_eq_2)
  have a: "apart [[3, 4], [1, 2], [0, 0, 0, 0, 0, 0]] (buf 2 6)
      (peekQueue (ex_seen_end [buf 0 2, buf 1 2]))"
    by (simp add: example_defs numeral_2_eq_2)
  from read_partial_at_end [OF e c, of node_read, where ?'e = string] e c a show ?thesis
    by (simp add: ex_seen_end_def ex_done_def new_StreamReader_def peeked_def bytes_of_def
        load_def buf_def)
qed

section \<open>Peeking nothing\<close>

text \<open>
  C10. \<^verbatim>\<open>peek(buffer, offset, 0)\<close> pushes a chunk of length zero, the empty slice of
  the buffer, and after the end of the stream the test of line 81 (on the number of
  chunks) does not fire. The claim says that the \<^verbatim>\<open>read\<close> that follows returns 0.
  The code does so when the buffer peeked into is a \<^verbatim>\<open>Buffer\<close> (the last run below);
  it fails to when the buffer is a plain \<^verbatim>\<open>Uint8Array\<close>, which the signature of
  \<^verbatim>\<open>peek\<close> admits: the chunk pushed is then a plain \<^verbatim>\<open>Uint8Array\<close> of length
  zero on a new \<^verbatim>\<open>ArrayBuffer\<close>, the \<^verbatim>\<open>read\<close> of one byte pops it and calls its
  \<^verbatim>\<open>copy\<close> (line 91), which it has not, and the call is rejected with a
  \<^verbatim>\<open>TypeError\<close>.
\<close>

theorem peek_zero_uint8array_then_read_after_end:
  "peek node_read [[0]] (new_StreamReader ex_done) (u8 0 1) 0 0 =
     (Settled (Inr 0) [[0], []] ((new_StreamReader ex_done)\<lparr>peekQueue := [u8 1 0]\<rparr>)
        :: (string, Readable) promise) \<and>
   emit node_read End [[0], []] ((new_StreamReader ex_done)\<lparr>peekQueue := [u8 1 0]\<rparr>) =
     (Silent [[0], []] (ex_seen_end [u8 1 0]) :: (string, Readable) reaction) \<and>
   held (peekQueue (ex_seen_end [u8 1 0])) = 0 \<and>
   read node_read [[0], []] (ex_seen_end [u8 1 0]) (u8 0 1) 0 1 =
     (Settled (Inl TypeError) [[0], []] (ex_seen_end []) :: (string, Readable) promise) \<and>
   run node_read [Call_peek (u8 0 1) 0 0, Env (Emit End), Call_read (u8 0 1) 0 1]
       (fresh_caller [[0]] ex_done) =
     Some \<lparr>reader = ex_seen_end [], store = [[0], []], busy = False,
           results = [Inl TypeError, Inr 0 :: string error + nat]\<rparr> \<and>
   run node_read [Call_peek (buf 0 1) 0 0, Env (Emit End), Call_read (buf 0 1) 0 1]
       (fresh_caller [[0]] ex_done) =
     Some \<lparr>reader = ex_seen_end [], store = [[0]], busy = False,
           results = [Inr 0, Inr 0 :: string error + nat]\<rparr>"
  by (simp add: example_defs)

section \<open>Termination of the stream\<close>

text \<open>
  C6. The listeners for \<^verbatim>\<open>'end'\<close>, \<^verbatim>\<open>'error'\<close> and \<^verbatim>\<open>'close'\<close> all call
  \<^verbatim>\<open>reject\<close>: with \<^verbatim>\<open>End-Of-Stream\<close> for the end, with the error of the stream
  for an error, with the error \<^verbatim>\<open>Stream closed\<close> for a close. \<^verbatim>\<open>reject\<close> sets
  \<open>endOfStream\<close>; when a request is pending it rejects the request's promise with
  that error and clears \<open>request\<close>, otherwise it does nothing else; the memory is not
  written. Each listener is a \<^verbatim>\<open>once\<close> listener: a second event of the same name
  does nothing. Once set, \<open>endOfStream\<close> stays set through every later call and event.
\<close>

theorem termination_signals:
  "(once_end this \<longrightarrow>
      emit sread End heap this =
        (reject EndOfStream heap (this\<lparr>once_end := False\<rparr>) :: ('e, 's) reaction)) \<and>
   (once_error this \<longrightarrow>
      emit sread (Error err) heap this =
        (reject (SourceError err) heap (this\<lparr>once_error := False\<rparr>) :: ('e, 's) reaction)) \<and>
   (once_close this \<longrightarrow>
      emit sread Close heap this =
        (reject StreamClosed heap (this\<lparr>once_close := False\<rparr>) :: ('e, 's) reaction)) \<and>
   (\<not> once_end this \<longrightarrow> emit sread End heap this = (Silent heap this :: ('e, 's) reaction)) \<and>
   (\<not> once_error this \<longrightarrow>
      emit sread (Error err) heap this = (Silent heap this :: ('e, 's) reaction)) \<and>
   (\<not> once_close this \<longrightarrow>
      emit sread Close heap this = (Silent heap this :: ('e, 's) reaction)) \<and>
   (request this = Some r \<longrightarrow>
      reject e heap this =
        (Delivered (Inl e) heap (this\<lparr>endOfStream := True, request := None\<rparr>)
           :: ('e, 's) reaction)) \<and>
   (request this = None \<longrightarrow>
      reject e heap this = (Silent heap (this\<lparr>endOfStream := True\<rparr>) :: ('e, 's) reaction)) \<and>
   (endOfStream (reader c) \<and> run sread acts c = Some (c' :: ('e, 's) caller) \<longrightarrow>
      endOfStream (reader c'))"
  using run_ended [of c sread acts c'] by (simp add: reject_def)

theorem termination_signals_witness:
  "emit node_read End [[0, 0]] ex_pending =
     (Delivered (Inl EndOfStream) [[0, 0]]
        (ex_pending\<lparr>once_end := False, endOfStream := True, request := None\<rparr>)
        :: (string, Readable) reaction) \<and>
   emit node_read (Error ''ECONNRESET'') [[0, 0]] ex_pending =
     (Delivered (Inl (SourceError ''ECONNRESET'')) [[0, 0]]
        (ex_pending\<lparr>once_error := False, endOfStream := True, request := None\<rparr>)
        :: (string, Readable) reaction) \<and>
   emit node_read Close [[0, 0]] ex_pending =
     (Delivered (Inl StreamClosed) [[0, 0]]
        (ex_pending\<lparr>once_close := False, endOfStream := True, request := None\<rparr>)
        :: (string, Readable) reaction) \<and>
   emit node_read Close [[0, 0]] (new_StreamReader ex_src) =
     (Silent [[0, 0]] ((new_StreamReader ex_src)\<lparr>once_close := False, endOfStream := True\<rparr>)
        :: (string, Readable) reaction) \<and>
   run node_read [Env (Emit End), Call_read (buf 0 1) 0 1] (fresh_caller [[0]] ex_src) =
     Some \<lparr>reader = (new_StreamReader ex_src)\<lparr>once_end := False, endOfStream := True\<rparr>,
           store = [[0]], busy = False, results = [Inl EndOfStream :: string error + nat]\<rparr> \<and>
   endOfStream ((new_StreamReader ex_src)\<lparr>once_end := False, endOfStream := True\<rparr>)"
proof -
  let ?r = "\<lparr>rq_buffer = buf 0 2, rq_offset = 0, rq_length = 2,
            rq_deferred = [AwaitInRead 0]\<rparr>"
  let ?c = "\<lparr>reader = (new_StreamReader ex_src)\<lparr>once_end := False, endOfStream := True\<rparr>,
            store = [[0]], busy = False, results = [] :: (string error + nat) list\<rparr>"
  let ?c' = "\<lparr>reader = (new_StreamReader ex_src)\<lparr>once_end := False, endOfStream := True\<rparr>,
            store = [[0]], busy = False, results = [Inl EndOfStream :: string error + nat]\<rparr>"
  have r: "run node_read [Env (Emit End), Call_read (buf 0 1) 0 1] (fresh_caller [[0]] ex_src) =
      Some ?c'"
    by (simp add: example_defs)
  have r': "run node_read [Call_read (buf 0 1) 0 1] ?c = Some ?c'"
    by (simp add: example_defs)
  from termination_signals [of ex_pending node_read "[[0, 0]]" "''ECONNRESET''" ?r EndOfStream ?c
      "[Call_read (buf 0 1) 0 1]" ?c']
    termination_signals [of "new_StreamReader ex_src" node_read "[[0, 0]]" "''ECONNRESET''" ?r
      StreamClosed ?c "[Call_read (buf 0 1) 0 1]" ?c'] r r'
  show ?thesis
    by (simp add: ex_pending_def new_StreamReader_def reject_def)
qed

section \<open>An error of the stream\<close>

text \<open>
  C5, as the claim states it, fails: the stream reports an error while no read is
  pending, and the next \<^verbatim>\<open>read\<close> is rejected with \<^verbatim>\<open>End-Of-Stream\<close>, which is
  not the error of the stream.
\<close>

theorem source_error_next_read_counterexample:
  "emit node_read (Error ''ECONNRESET'') [[0]] (new_StreamReader ex_src) =
     (Silent [[0]] (ex_ended []\<lparr>once_error := False\<rparr>) :: (string, Readable) reaction) \<and>
   read node_read [[0]] (ex_ended []\<lparr>once_error := False\<rparr>) (buf 0 1) 0 1 =
     (Settled (Inl EndOfStream) [[0]] (ex_ended []\<lparr>once_error := False\<rparr>)
        :: (string, Readable) promise) \<and>
   (EndOfStream :: string error) \<noteq> SourceError ''ECONNRESET''"
  by (simp add: ex_ended_def new_StreamReader_def reject_def read_def)

text \<open>
  C5, amended. When the stream reports an error (the listener being registered): a
  pending read is rejected with that very error; when no read is pending, the error is
  not kept (the reader only sets \<open>endOfStream\<close>, and its state does not depend on the
  error), and the next \<^verbatim>\<open>read\<close> of a positive length on an empty peek queue is
  rejected with \<^verbatim>\<open>End-Of-Stream\<close>.
\<close>

theorem source_error_delivery:
  assumes "once_error this"
  shows "(request this = Some r \<longrightarrow>
            emit sread (Error err) heap this =
              (Delivered (Inl (SourceError err)) heap
                 (this\<lparr>once_error := False, endOfStream := True, request := None\<rparr>)
                 :: ('e, 's) reaction)) \<and>
         (request this = None \<longrightarrow>
            emit sread (Error err) heap this =
              (Silent heap (this\<lparr>once_error := False, endOfStream := True\<rparr>)
                 :: ('e, 's) reaction) \<and>
            (0 < len \<and> peekQueue this = [] \<longrightarrow>
               read sread heap (this\<lparr>once_error := False, endOfStream := True\<rparr>) buffer offset
                   len =
                 (Settled (Inl EndOfStream) heap
                    (this\<lparr>once_error := False, endOfStream := True\<rparr>) :: ('e, 's) promise)))"
  using assms by (simp add: reject_def read_def)

theorem source_error_delivery_witness:
  "emit node_read (Error ''ECONNRESET'') [[0, 0]] ex_pending =
     (Delivered (Inl (SourceError ''ECONNRESET'')) [[0, 0]]
        (ex_pending\<lparr>once_error := False, endOfStream := True, request := None\<rparr>)
        :: (string, Readable) reaction) \<and>
   emit node_read (Error ''ECONNRESET'') [[0]] (new_StreamReader ex_src) =
     (Silent [[0]] ((new_StreamReader ex_src)\<lparr>once_error := False, endOfStream := True\<rparr>)
        :: (string, Readable) reaction) \<and>
   read node_read [[0]] ((new_StreamReader ex_src)\<lparr>once_error := False, endOfStream := True\<rparr>)
       (buf 0 1) 0 1 =
     (Settled (Inl EndOfStream) [[0]]
        ((new_StreamReader ex_src)\<lparr>once_error := False, endOfStream := True\<rparr>)
        :: (string, Readable) promise)"
  using source_error_delivery [of ex_pending
      "\<lparr>rq_buffer = buf 0 2, rq_offset = 0, rq_length = 2, rq_deferred = [AwaitInRead 0]\<rparr>"
      node_read "''ECONNRESET''" "[[0, 0]]" 1 "buf 0 1" 0]
    source_error_delivery [of "new_StreamReader ex_src" undefined node_read "''ECONNRESET''"
      "[[0]]" 1 "buf 0 1" 0]
  by (simp add: ex_pending_def new_StreamReader_def)

section \<open>One low-level read at a time\<close>

text \<open>
  C9. \<^verbatim>\<open>_read\<close> asserts that no request is stored: called while a request is stored
  it is rejected with the \<^verbatim>\<open>AssertionError\<close>, and so is a second \<^verbatim>\<open>_read\<close> issued
  while the first one is pending. In every run of one caller (each call awaited before
  the next) a request is stored exactly while a call is outstanding, no call is rejected
  by the assertion, and a \<^verbatim>\<open>read\<close> or \<^verbatim>\<open>peek\<close> issued when no call is outstanding
  does not fail the assertion.
\<close>

theorem concurrent_read_assertion:
  "(request this \<noteq> None \<longrightarrow>
      priv_read sread heap this buffer offset len =
        (Settled (Inl AssertionError) heap this :: ('e, 's) promise)) \<and>
   (priv_read sread heap this buffer offset len = (Pending heap' this' :: ('e, 's) promise) \<longrightarrow>
      priv_read sread heap' this' buffer' offset' len' =
        (Settled (Inl AssertionError) heap' this' :: ('e, 's) promise)) \<and>
   (run sread acts (fresh_caller heap0 src) = Some (c :: ('e, 's) caller) \<longrightarrow>
      busy c = (request (reader c) \<noteq> None) \<and>
      Inl AssertionError \<notin> set (results c) \<and>
      (\<not> busy c \<longrightarrow>
         \<not> assertion_failed
             (read sread (store c) (reader c) buffer offset len :: ('e, 's) promise) \<and>
         \<not> assertion_failed
             (peek sread (store c) (reader c) buffer offset len :: ('e, 's) promise)))"
proof (intro conjI impI)
  assume "request this \<noteq> None"
  then show "priv_read sread heap this buffer offset len =
        (Settled (Inl AssertionError) heap this :: ('e, 's) promise)"
    by (simp add: priv_read_def)
next
  assume "priv_read sread heap this buffer offset len = (Pending heap' this' :: ('e, 's) promise)"
  then have "request this' \<noteq> None"
    by (rule priv_read_Pending)
  then show "priv_read sread heap' this' buffer' offset' len' =
        (Settled (Inl AssertionError) heap' this' :: ('e, 's) promise)"
    by (simp add: priv_read_def)
next
  assume r: "run sread acts (fresh_caller heap0 src) = Some c"
  have inv: "one_outstanding c"
    using fresh_one_outstanding r by (rule run_one_outstanding)
  then show "busy c = (request (reader c) \<noteq> None)"
    and "Inl AssertionError \<notin> set (results c)"
    by (simp_all add: one_outstanding_def)
  assume "\<not> busy c"
  with inv have idle: "request (reader c) = None"
    by (simp add: one_outstanding_def)
  show "\<not> assertion_failed
      (read sread (store c) (reader c) buffer offset len :: ('e, 's) promise)"
    using idle by (auto simp: not_failed_iff split: promise.splits dest: read_Settled)
  show "\<not> assertion_failed
      (peek sread (store c) (reader c) buffer offset len :: ('e, 's) promise)"
    using idle by (auto simp: not_failed_iff split: promise.splits dest: peek_Settled)
qed

theorem concurrent_read_assertion_witness:
  "priv_read node_read [[0, 0]] ex_pending (buf 0 1) 0 1 =
     (Settled (Inl AssertionError) [[0, 0]] ex_pending :: (string, Readable) promise) \<and>
   run node_read ex_actions (fresh_caller [[0, 0, 0, 0], [0, 0, 0, 0, 0]] ex_src) =
     Some \<lparr>reader = ex_idle, store = [[1, 2, 3, 4], [1, 2, 3, 4, 5]], busy = False,
           results = [Inr 5, Inr 4]\<rparr> \<and>
   \<not> assertion_failed
       (read node_read [[1, 2, 3, 4], [1, 2, 3, 4, 5]] ex_idle (buf 0 1) 0 1
          :: (string, Readable) promise) \<and>
   \<not> assertion_failed
       (peek node_read [[1, 2, 3, 4], [1, 2, 3, 4, 5]] ex_idle (buf 0 1) 0 1
          :: (string, Readable) promise)"
proof -
  have r: "run node_read ex_actions (fresh_caller [[0, 0, 0, 0], [0, 0, 0, 0, 0]] ex_src) =
     Some \<lparr>reader = ex_idle, store = [[1, 2, 3, 4], [1, 2, 3, 4, 5]], busy = False,
           results = [Inr 5, Inr 4]\<rparr>"
    by (simp add: ex_actions_def example_defs)
  have p: "request ex_pending \<noteq> None"
    by (simp add: ex_pending_def)
  from concurrent_read_assertion [where this = ex_pending and sread = node_read
      and heap = "[[0, 0]]"
      and buffer = "buf 0 1" and offset = 0 and len = 1 and acts = ex_actions and src = ex_src
      and heap0 = "[[0, 0, 0, 0], [0, 0, 0, 0, 0]]"
      and c = "\<lparr>reader = ex_idle, store = [[1, 2, 3, 4], [1, 2, 3, 4, 5]], busy = False,
                 results = [Inr 5, Inr 4]\<rparr>"
      and ?'e = string] r p
  show ?thesis by simp
qed

section \<open>Peek, then read\<close>

text \<open>
  C1. A successful \<^verbatim>\<open>peek\<close> pushes the slice it has filled back on the peek queue,
  so that a \<^verbatim>\<open>read\<close> of the same length that follows at once returns the same bytes.
  The code fails this when the caller's buffer is a plain \<^verbatim>\<open>Uint8Array\<close>, which the
  signature of \<^verbatim>\<open>peek\<close> admits. On a stream holding 1, 2, 3, 4, \<^verbatim>\<open>peek\<close> of 4 bytes
  succeeds and pushes \<^verbatim>\<open>buffer.slice(0, 4)\<close>, a plain \<^verbatim>\<open>Uint8Array\<close> holding a copy
  of the bytes (line 65 casts it to \<^verbatim>\<open>Buffer\<close>). The \<^verbatim>\<open>read\<close> of 4 bytes that
  follows pops the chunk and calls its \<^verbatim>\<open>copy\<close> (line 91), which it has not: the call
  is rejected with a \<^verbatim>\<open>TypeError\<close>, nothing is delivered, and the bytes peeked are gone
  from the queue.
\<close>

theorem peek_uint8array_then_read:
  "peek node_read [[0, 0, 0, 0]] (new_StreamReader ex_src) (u8 0 4) 0 4 =
     (Settled (Inr 4) [[1, 2, 3, 4], [1, 2, 3, 4]] (ex_idle\<lparr>peekQueue := [u8 1 4]\<rparr>)
        :: (string, Readable) promise) \<and>
   bytes_of [[1, 2, 3, 4], [1, 2, 3, 4]] (u8 0 4) = [1, 2, 3, 4] \<and>
   peeked [[1, 2, 3, 4], [1, 2, 3, 4]] [u8 1 4] = [1, 2, 3, 4] \<and>
   read node_read [[1, 2, 3, 4], [1, 2, 3, 4]] (ex_idle\<lparr>peekQueue := [u8 1 4]\<rparr>) (u8 0 4) 0 4 =
     (Settled (Inl TypeError) [[1, 2, 3, 4], [1, 2, 3, 4]] ex_idle
        :: (string, Readable) promise)"
  by (simp add: example_defs)

section \<open>The order of the peek queue\<close>

text \<open>
  C2, as the claim states it, fails. After \<^verbatim>\<open>peek\<close> of 4 bytes and \<^verbatim>\<open>peek\<close> of 2
  bytes on a stream holding 1, 2, 3, 4, the queue holds a chunk with the bytes 3, 4,
  pushed first (line 96), and a chunk with the bytes 1, 2, pushed second (line 65). The
  next \<^verbatim>\<open>read\<close> of 2 bytes consumes the chunk pushed last and leaves the chunk pushed
  first.
\<close>

theorem peek_queue_fifo_counterexample:
  "peek node_read [[0, 0, 0, 0], [0, 0], [0, 0]] (new_StreamReader ex_src) (buf 0 4) 0 4 =
     (Settled (Inr 4) [[1, 2, 3, 4], [0, 0], [0, 0]] (ex_idle\<lparr>peekQueue := push [] (buf 0 4)\<rparr>)
        :: (string, Readable) promise) \<and>
   peek node_read [[1, 2, 3, 4], [0, 0], [0, 0]] (ex_idle\<lparr>peekQueue := push [] (buf 0 4)\<rparr>)
       (buf 1 2) 0 2 =
     (Settled (Inr 2) [[1, 2, 3, 4], [1, 2], [0, 0]]
        (ex_idle\<lparr>peekQueue := push (push [] (sub 0 2 2)) (buf 1 2)\<rparr>)
        :: (string, Readable) promise) \<and>
   bytes_of [[1, 2, 3, 4], [1, 2], [0, 0]] (sub 0 2 2) = [3, 4] \<and>
   bytes_of [[1, 2, 3, 4], [1, 2], [0, 0]] (buf 1 2) = [1, 2] \<and>
   read node_read [[1, 2, 3, 4], [1, 2], [0, 0]]
       (ex_idle\<lparr>peekQueue := push (push [] (sub 0 2 2)) (buf 1 2)\<rparr>) (buf 2 2) 0 2 =
     (Settled (Inr 2) [[1, 2, 3, 4], [1, 2], [1, 2]] (ex_idle\<lparr>peekQueue := push [] (sub 0 2 2)\<rparr>)
        :: (string, Readable) promise)"
  by (simp add: example_defs numeral_2_eq_2)

text \<open>
  C2, amended. The peek queue is a stack: for every memory, every queue and every chunk
  pushed on it, a turn of the loop of \<^verbatim>\<open>read\<close> that needs bytes takes the chunk pushed
  last. When the chunk is a \<^verbatim>\<open>Buffer\<close> and the loop needs less than the chunk, the
  first bytes of the chunk are copied and the rest of the chunk is pushed back on top,
  where it is taken first by the next consumption, and the loop ends; the rest is a
  \<^verbatim>\<open>Buffer\<close> on the same memory, not a copy: through it one sees, in whatever the
  memory holds later, the bytes of the chunk from that position on. When the loop needs
  the whole chunk, the chunk is copied and the loop goes on with the queue below it, so
  that the chunks pushed earlier follow in reverse order of pushing. (A chunk that is no
  \<^verbatim>\<open>Buffer\<close> is taken off the same way, and the loop throws.) The bytes copied into
  the buffer are the first bytes of the chunk as they are when the chunk is taken, as
  far as the buffer reaches, also when chunk and buffer share memory (the typed arrays
  lying in memory).
\<close>

theorem peek_queue_lifo:
  assumes "0 < len"
  shows "consume_peeked heap (push queue chunk) buffer offset bytesRead len =
           (if kind chunk \<noteq> Buffer then Inl (queue, heap)
            else if len < byteLength chunk then
              Inr (push queue (chunk\<lparr>byteOffset := byteOffset chunk + len,
                                     byteLength := byteLength chunk - len\<rparr>),
                   copy (bytes_of heap chunk) heap buffer (offset + bytesRead) 0 len,
                   bytesRead + len, 0)
            else
              consume_peeked
                (copy (bytes_of heap chunk) heap buffer (offset + bytesRead) 0 (byteLength chunk))
                queue buffer offset (bytesRead + byteLength chunk) (len - byteLength chunk)) \<and>
         (\<forall>heap'. bytes_of heap' (chunk\<lparr>byteOffset := byteOffset chunk + len,
                                       byteLength := byteLength chunk - len\<rparr>) =
                    drop len (bytes_of heap' chunk)) \<and>
         (inside heap buffer \<and> inside heap chunk \<longrightarrow>
            region (copy (bytes_of heap chunk) heap buffer (offset + bytesRead) 0
                      (min len (byteLength chunk)))
              buffer (offset + bytesRead) (offset + bytesRead + min len (byteLength chunk)) =
              take (byteLength buffer - (offset + bytesRead)) (take len (bytes_of heap chunk)))"
proof (intro conjI impI allI)
  show "consume_peeked heap (push queue chunk) buffer offset bytesRead len =
           (if kind chunk \<noteq> Buffer then Inl (queue, heap)
            else if len < byteLength chunk then
              Inr (push queue (chunk\<lparr>byteOffset := byteOffset chunk + len,
                                     byteLength := byteLength chunk - len\<rparr>),
                   copy (bytes_of heap chunk) heap buffer (offset + bytesRead) 0 len,
                   bytesRead + len, 0)
            else
              consume_peeked
                (copy (bytes_of heap chunk) heap buffer (offset + bytesRead) 0 (byteLength chunk))
                queue buffer offset (bytesRead + byteLength chunk) (len - byteLength chunk))"
    using assms
    by (simp add: push_def consume_peeked_throw consume_peeked_part consume_peeked_whole)
next
  fix heap'
  show "bytes_of heap' (chunk\<lparr>byteOffset := byteOffset chunk + len,
                               byteLength := byteLength chunk - len\<rparr>) =
        drop len (bytes_of heap' chunk)"
    by (rule bytes_of_rest)
next
  let ?n = "min len (byteLength chunk)"
  let ?h = "copy (bytes_of heap chunk) heap buffer (offset + bytesRead) 0 ?n"
  assume a: "inside heap buffer \<and> inside heap chunk"
  then have i: "inside heap buffer" and l: "length (bytes_of heap chunk) = byteLength chunk"
    by (simp_all add: length_bytes_of)
  from i have "bytes_of ?h buffer =
      overwrite (bytes_of heap buffer) (offset + bytesRead) (take ?n (bytes_of heap chunk))"
    by (rule bytes_of_copy_target)
  from region_overwritten [OF i this] l
  have "region ?h buffer (offset + bytesRead) (offset + bytesRead + ?n) =
      take (byteLength buffer - (offset + bytesRead)) (take ?n (bytes_of heap chunk))"
    by (simp add: min.commute min.left_commute)
  also from l have "take ?n (bytes_of heap chunk) = take len (bytes_of heap chunk)"
    by (simp add: min_def)
  finally show "region ?h buffer (offset + bytesRead) (offset + bytesRead + ?n) =
      take (byteLength buffer - (offset + bytesRead)) (take len (bytes_of heap chunk))" .
qed

theorem peek_queue_lifo_witness:
  "consume_peeked [[1, 2, 3, 4]] (push [] (buf 0 4)) (buf 0 4) 2 0 2 =
     Inr (push [] (sub 0 2 2), [[1, 2, 1, 2]], 2, 0) \<and>
   bytes_of [[1, 2, 1, 2]] (sub 0 2 2) = [1, 2] \<and>
   region [[1, 2, 1, 2]] (buf 0 4) 2 4 = [1, 2] \<and>
   consume_peeked [[3, 4], [1, 2], [0, 0, 0]] (push [buf 0 2] (buf 1 2)) (buf 2 3) 0 0 3 =
     consume_peeked [[3, 4], [1, 2], [1, 2, 0]] [buf 0 2] (buf 2 3) 0 2 1 \<and>
   consume_peeked [[3, 4], [1, 2], [1, 2, 0]] [buf 0 2] (buf 2 3) 0 2 1 =
     Inr ([sub 0 1 1], [[3, 4], [1, 2], [1, 2, 3]], 3, 0) \<and>
   consume_peeked [[3, 4], [1, 2], [0, 0, 0]] (push [buf 0 2] (u8 1 2)) (buf 2 3) 0 0 3 =
     Inl ([buf 0 2], [[3, 4], [1, 2], [0, 0, 0]])"
proof -
  have c: "consume_peeked [[3, 4], [1, 2], [1, 2, 0]] [buf 0 2] (buf 2 3) 0 2 1 =
      Inr ([sub 0 1 1], [[3, 4], [1, 2], [1, 2, 3]], 3, 0)"
    by (simp add: example_defs numeral_2_eq_2)
  from peek_queue_lifo [of 2 "[[1, 2, 3, 4]]" "[]" "buf 0 4" "buf 0 4" 2 0]
    peek_queue_lifo [of 3 "[[3, 4], [1, 2], [0, 0, 0]]" "[buf 0 2]" "buf 1 2" "buf 2 3" 0 0]
    peek_queue_lifo [of 3 "[[3, 4], [1, 2], [0, 0, 0]]" "[buf 0 2]" "u8 1 2" "buf 2 3" 0 0] c
  show ?thesis
    by (simp add: copy_def bytes_of_def load_def overwrite_def region_def inside_def
        buf_def u8_def sub_def numeral_2_eq_2)
qed

section \<open>Peek, then a longer peek\<close>




end
